theory Spec2Isabelle
  imports Main "HOL-Library.Word"
begin

section \<open>satfetch: the batch fetch cycle and the response demultiplexer\<close>

text \<open>
  A shallow embedding of \<^verbatim>\<open>satfetch.go\<close>: the function \<^verbatim>\<open>FetchTLEsForSATCAT\<close>
  (window selection, exclusive claims, query, demultiplexing) and the cycle loop of
  \<^verbatim>\<open>main\<close>. Everything the Go code does to the outside is explicit state: the files
  of the output directory, and traces of the files created, the conflicts logged, the
  requests posted and the writes performed. Every \<^verbatim>\<open>panic\<close>, \<^verbatim>\<open>log.Fatal\<close> and
  run-time bounds failure is a value of the type \<open>fault\<close>.
\<close>

subsection \<open>Library functions of Go used by the code\<close>

text \<open>
  Go's \<^verbatim>\<open>int\<close> on a 64-bit platform: a 64-bit word read as two's complement
  (\<open>sint\<close>); \<open>+\<close> wraps around as Go's does.
\<close>

type_synonym go_int = "64 word"

definition is_digit :: "char \<Rightarrow> bool" where
  "is_digit c = (48 \<le> (of_char c :: nat) \<and> (of_char c :: nat) \<le> 57)"

definition digit_val :: "char \<Rightarrow> nat" where
  "digit_val c = (of_char c :: nat) - 48"

definition decimal :: "string \<Rightarrow> nat" where
  "decimal ds = foldl (\<lambda>n ch. n * 10 + digit_val ch) 0 ds"

text \<open>
  \<^verbatim>\<open>strconv.Atoi\<close>: an optional sign, then one or more decimal digits and nothing
  else; the value must fit a 64-bit \<^verbatim>\<open>int\<close>. \<open>None\<close> stands for a non-nil error
  (syntax or range).
\<close>

definition Atoi :: "string \<Rightarrow> int option" where
  "Atoi s =
     (let neg = (s \<noteq> [] \<and> hd s = CHR ''-'');
          ds = (if s \<noteq> [] \<and> (hd s = CHR ''-'' \<or> hd s = CHR ''+'') then tl s else s)
      in if ds = [] \<or> \<not> list_all is_digit ds then None
         else let n = (if neg then - int (decimal ds) else int (decimal ds))
              in if - (2 ^ 63) \<le> n \<and> n < 2 ^ 63 then Some n else None)"

text \<open>\<^verbatim>\<open>strings.Trim(s, " ")\<close>: leading and trailing spaces removed, nothing else.\<close>

definition Trim_space :: "string \<Rightarrow> string" where
  "Trim_space s =
     rev (dropWhile (\<lambda>c. c = CHR '' '') (rev (dropWhile (\<lambda>c. c = CHR '' '') s)))"

text \<open>
  \<^verbatim>\<open>strings.Split(s, "\n")\<close>: the segments between line feeds; the result is never
  empty, and a string ending in a line feed yields a last segment \<open>''''\<close>.
\<close>

fun Split_newline :: "string \<Rightarrow> string list" where
  "Split_newline [] = [[]]"
| "Split_newline (c # cs) =
     (if c = CHR 0x0A then [] # Split_newline cs
      else (case Split_newline cs of
              [] \<Rightarrow> [[c]]
            | l # ls \<Rightarrow> (c # l) # ls))"

subsection \<open>Data\<close>

record SatcatRow =
  IntlDes :: string
  NORADID :: string
  ObjectType :: string
  SatName :: string
  Country :: string
  LaunchDate :: string
  LaunchSite :: string
  DecayDate :: string
  Period :: string
  Inclination :: string
  Apogeee :: string
  Perigee :: string
  Comment :: string
  CommentCode :: string
  RCSValue :: string
  RCSSize :: string
  FileID :: string
  LaunchYear :: string
  LaunchNum :: string
  LaunchPiece :: string
  IsCurrent :: string
  ObjectName :: string
  ObjectID :: string
  ObjectNum :: string

text \<open>The zero value of the struct: every field the empty string.\<close>

definition zero_row :: SatcatRow where
  "zero_row = \<lparr>IntlDes = [], NORADID = [], ObjectType = [], SatName = [], Country = [],
     LaunchDate = [], LaunchSite = [], DecayDate = [], Period = [], Inclination = [],
     Apogeee = [], Perigee = [], Comment = [], CommentCode = [], RCSValue = [],
     RCSSize = [], FileID = [], LaunchYear = [], LaunchNum = [], LaunchPiece = [],
     IsCurrent = [], ObjectName = [], ObjectID = [], ObjectNum = []\<rparr>"

text \<open>A catalog row that carries the given identifier (the other columns are not read).\<close>

definition row :: "string \<Rightarrow> SatcatRow" where
  "row ident = zero_row\<lparr>NORADID := ident\<rparr>"

text \<open>
  The slice \<^verbatim>\<open>satcatRows\<close>: its elements and its capacity. \<^verbatim>\<open>ParseSATCATCSV\<close> builds
  it by \<^verbatim>\<open>append\<close> from \<^verbatim>\<open>nil\<close>, so the backing array beyond the length holds
  zero values, and how far it extends is the run-time's choice: a parameter here.
\<close>

record catalog =
  rows :: "SatcatRow list"
  capacity :: nat

definition backing :: "catalog \<Rightarrow> SatcatRow list" where
  "backing cat = rows cat @ replicate (capacity cat - length (rows cat)) zero_row"

text \<open>
  The output directory and the traces. \<open>contents\<close> maps a path to the bytes of the file
  there; \<open>create_faults\<close> and \<open>write_faults\<close> are the paths where creating a file, or
  writing through its handle, fails for a reason of the environment (permissions, I/O).
  \<open>created\<close> lists the handles obtained by successful exclusive creation, \<open>skipped\<close> the
  conflicts logged, \<open>requests\<close> the calls of \<^verbatim>\<open>STPOST\<close> and \<open>writes\<close> the successful
  calls of \<^verbatim>\<open>WriteString\<close> (handle and data), each in order. A handle is the path it
  was opened on.
\<close>

record world =
  contents :: "string \<rightharpoonup> string"
  create_faults :: "string set"
  write_faults :: "string set"
  created :: "string list"
  skipped :: "string list"
  requests :: "(string \<times> string) list"
  writes :: "(string \<times> string) list"

datatype fault =
    PanicWindowBounds
  | FatalClaim
  | FatalCatalogID
  | PanicTransport
  | PanicLineBounds
  | FatalLineID
  | PanicWrite

text \<open>
  The environment of a run: the two environment variables read, and the remote service
  behind \<^verbatim>\<open>http.PostForm\<close> (\<open>None\<close>: the call returns an error). Within a run no
  request is repeated, so a function of the request loses nothing.
\<close>

record env =
  apiroot :: string
  loginurl :: string
  remote :: "string \<Rightarrow> string \<Rightarrow> string option"

subsection \<open>The claim step\<close>

datatype open_result = Opened world | ErrExist | ErrOther

text \<open>
  \<^verbatim>\<open>os.OpenFile(filename, O_APPEND|O_WRONLY|O_CREATE|O_EXCL, 0600)\<close>: fails with
  "exists" when there is a file at the path, creates an empty file otherwise.
\<close>

definition OpenFile :: "world \<Rightarrow> string \<Rightarrow> open_result" where
  "OpenFile w p =
     (if contents w p \<noteq> None then ErrExist
      else if p \<in> create_faults w then ErrOther
      else Opened (w\<lparr>contents := (contents w)(p \<mapsto> []), created := created w @ [p]\<rparr>))"

definition filename :: "string \<Rightarrow> string \<Rightarrow> string" where
  "filename destDir ident = destDir @ ''/'' @ ident @ ''.tle''"

text \<open>The local variables of \<^verbatim>\<open>FetchTLEsForSATCAT\<close> that the claim loop builds.\<close>

record claims =
  noradIDQuery :: string
  noradIDs :: "string list"
  files :: "int \<rightharpoonup> string"

definition no_claims :: claims where
  "no_claims = \<lparr>noradIDQuery = [], noradIDs = [], files = Map.empty\<rparr>"

text \<open>One iteration of the loop over the window (lines 144 to 165).\<close>

definition claim_step ::
  "string \<Rightarrow> SatcatRow \<Rightarrow> claims \<times> world \<Rightarrow> (fault \<times> world) + (claims \<times> world)" where
  "claim_step destDir v cw =
     (case OpenFile (snd cw) (filename destDir (NORADID v)) of
        ErrExist \<Rightarrow>
          Inr (fst cw, (snd cw)\<lparr>skipped := skipped (snd cw) @ [filename destDir (NORADID v)]\<rparr>)
      | ErrOther \<Rightarrow> Inl (FatalClaim, snd cw)
      | Opened w' \<Rightarrow>
          (case Atoi (NORADID v) of
             None \<Rightarrow> Inl (FatalCatalogID, w')
           | Some k \<Rightarrow>
               Inr ((fst cw)\<lparr>noradIDQuery := noradIDQuery (fst cw) @ NORADID v @ '','',
                             noradIDs := noradIDs (fst cw) @ [NORADID v],
                             files := (files (fst cw))(k \<mapsto> filename destDir (NORADID v))\<rparr>,
                    w')))"

fun claim_loop ::
  "string \<Rightarrow> SatcatRow list \<Rightarrow> claims \<times> world \<Rightarrow> (fault \<times> world) + (claims \<times> world)" where
  "claim_loop destDir [] cw = Inr cw"
| "claim_loop destDir (v # vs) cw =
     (case claim_step destDir v cw of
        Inl a \<Rightarrow> Inl a
      | Inr cw' \<Rightarrow> claim_loop destDir vs cw')"

subsection \<open>The window\<close>

text \<open>
  \<^verbatim>\<open>satcatRows[startRow : startRow+numToFetch]\<close>: Go checks
  \<open>0 \<le> low \<le> high \<le> cap\<close> and panics otherwise; the sum wraps around.
\<close>

definition window :: "catalog \<Rightarrow> go_int \<Rightarrow> go_int \<Rightarrow> SatcatRow list option" where
  "window cat startRow numToFetch =
     (let high = startRow + numToFetch
      in if 0 \<le> sint startRow \<and> sint startRow \<le> sint high \<and> sint high \<le> int (capacity cat)
         then Some (take (nat (sint high) - nat (sint startRow))
                      (drop (nat (sint startRow)) (backing cat)))
         else None)"

subsection \<open>The demultiplexer\<close>

text \<open>
  \<^verbatim>\<open>strconv.Atoi(strings.Trim(lines[i][2:7], " "))\<close>: the substring faults on a line
  of fewer than 7 bytes.
\<close>

definition lineID :: "string \<Rightarrow> fault + int" where
  "lineID l =
     (if length l < 7 then Inl PanicLineBounds
      else (case Atoi (Trim_space (take 5 (drop 2 l))) of
              None \<Rightarrow> Inl FatalLineID
            | Some k \<Rightarrow> Inr k))"

definition file_bytes :: "world \<Rightarrow> string \<Rightarrow> string" where
  "file_bytes w p = (case contents w p of None \<Rightarrow> [] | Some b \<Rightarrow> b)"

text \<open>\<^verbatim>\<open>f.WriteString(s)\<close> on a handle opened with \<^verbatim>\<open>O_APPEND\<close>.\<close>

definition WriteString :: "world \<Rightarrow> string \<Rightarrow> string \<Rightarrow> world option" where
  "WriteString w f s =
     (if f \<in> write_faults w then None
      else Some (w\<lparr>contents := (contents w)(f \<mapsto> file_bytes w f @ s),
                   writes := writes w @ [(f, s)]\<rparr>))"

text \<open>One iteration of the loop over the lines (lines 187 to 196).\<close>

definition demux_step :: "(int \<rightharpoonup> string) \<Rightarrow> string \<Rightarrow> world \<Rightarrow> (fault \<times> world) + world" where
  "demux_step fm l w =
     (case lineID l of
        Inl e \<Rightarrow> Inl (e, w)
      | Inr k \<Rightarrow>
          (case fm k of
             None \<Rightarrow> Inr w
           | Some f \<Rightarrow>
               (case WriteString w f l of
                  None \<Rightarrow> Inl (PanicWrite, w)
                | Some w' \<Rightarrow> Inr w')))"

fun demux_loop :: "(int \<rightharpoonup> string) \<Rightarrow> string list \<Rightarrow> world \<Rightarrow> (fault \<times> world) + world" where
  "demux_loop fm [] w = Inr w"
| "demux_loop fm (l # ls) w =
     (case demux_step fm l w of
        Inl a \<Rightarrow> Inl a
      | Inr w' \<Rightarrow> demux_loop fm ls w')"

text \<open>
  Lines 184 to 197: the loop runs over the indices \<open>0 \<le> i < len(lines) - 1\<close>, that is
  over all segments but the last.
\<close>

definition demux :: "(int \<rightharpoonup> string) \<Rightarrow> string \<Rightarrow> world \<Rightarrow> (fault \<times> world) + world" where
  "demux fm resp w = demux_loop fm (butlast (Split_newline resp)) w"

subsection \<open>One cycle, and the cycles of main\<close>

definition queryURL :: "env \<Rightarrow> string \<Rightarrow> string" where
  "queryURL E q =
     apiroot E @ ''/query/class/tle/NORAD_CAT_ID/'' @ q
       @ ''/orderby/EPOCH asc/format/tle/metadata/false''"

text \<open>
  \<^verbatim>\<open>STPOST\<close>: the request is recorded; an error of the transport is a panic.
\<close>

definition STPOST :: "env \<Rightarrow> string \<Rightarrow> string \<Rightarrow> world \<Rightarrow> (fault \<times> world) + (string \<times> world)" where
  "STPOST E postURL query w =
     (let w' = w\<lparr>requests := requests w @ [(postURL, query)]\<rparr>
      in case remote E postURL query of
           None \<Rightarrow> Inl (PanicTransport, w')
         | Some body \<Rightarrow> Inr (body, w'))"

definition FetchTLEsForSATCAT ::
  "env \<Rightarrow> catalog \<Rightarrow> go_int \<Rightarrow> go_int \<Rightarrow> string \<Rightarrow> world \<Rightarrow> (fault \<times> world) + world" where
  "FetchTLEsForSATCAT E satcatRows startRow numToFetch destDir w =
     (case window satcatRows startRow numToFetch of
        None \<Rightarrow> Inl (PanicWindowBounds, w)
      | Some vs \<Rightarrow>
          (case claim_loop destDir vs (no_claims, w) of
             Inl a \<Rightarrow> Inl a
           | Inr cw \<Rightarrow>
               if noradIDQuery (fst cw) = [] then Inr (snd cw)
               else (case STPOST E (loginurl E)
                            (queryURL E (butlast (noradIDQuery (fst cw)))) (snd cw) of
                       Inl a \<Rightarrow> Inl a
                     | Inr bw \<Rightarrow> demux (files (fst cw)) (fst bw) (snd bw))))"

text \<open>
  The cycles of \<^verbatim>\<open>main\<close> with \<^verbatim>\<open>-tle\<close>: the first at start-up, one more at every
  tick, each followed by \<^verbatim>\<open>lastFetched += batchSize\<close>. The number of cycles before the
  interrupt is the environment's; a fault ends the process.
\<close>

fun scheduler ::
  "env \<Rightarrow> catalog \<Rightarrow> go_int \<Rightarrow> string \<Rightarrow> nat \<Rightarrow> go_int \<times> world
     \<Rightarrow> (fault \<times> world) + (go_int \<times> world)" where
  "scheduler E satcatRows batchSize tleDir 0 lw = Inr lw"
| "scheduler E satcatRows batchSize tleDir (Suc n) lw =
     (case FetchTLEsForSATCAT E satcatRows (fst lw) batchSize tleDir (snd lw) of
        Inl a \<Rightarrow> Inl a
      | Inr w' \<Rightarrow> scheduler E satcatRows batchSize tleDir n (fst lw + batchSize, w'))"

subsection \<open>Observing an outcome\<close>

text \<open>The state in which a call ended, whether it returned or the process died.\<close>

definition final :: "(fault \<times> world) + world \<Rightarrow> world" where
  "final r = (case r of Inl a \<Rightarrow> snd a | Inr w \<Rightarrow> w)"

definition final2 :: "(fault \<times> world) + ('a \<times> world) \<Rightarrow> world" where
  "final2 r = (case r of Inl a \<Rightarrow> snd a | Inr cw \<Rightarrow> snd cw)"

text \<open>
  Every handle obtained by exclusive creation was obtained once, and its file exists.
\<close>

definition created_exist :: "world \<Rightarrow> bool" where
  "created_exist w = (distinct (created w) \<and> set (created w) \<subseteq> dom (contents w))"

text \<open>
  Every sink of the claims is the artifact of an identifier that parses to its key.
\<close>

definition named_sinks :: "string \<Rightarrow> claims \<Rightarrow> bool" where
  "named_sinks d c = (\<forall>k f. files c k = Some f \<longrightarrow> (\<exists>i. f = filename d i \<and> Atoi i = Some k))"

text \<open>The handle that line 192 looks up for a line, when its identifier parses.\<close>

definition sink_of :: "(int \<rightharpoonup> string) \<Rightarrow> string \<Rightarrow> string option" where
  "sink_of fm l = (case lineID l of Inl e \<Rightarrow> None | Inr k \<Rightarrow> fm k)"

text \<open>
  A line that the loop passes without a fault: the identifier parses, and the write, if
  there is one, succeeds. \<open>bad\<close> are the handles whose writes fail.
\<close>

definition line_ok :: "(int \<rightharpoonup> string) \<Rightarrow> string set \<Rightarrow> string \<Rightarrow> bool" where
  "line_ok fm bad l =
     (case lineID l of
        Inl e \<Rightarrow> False
      | Inr k \<Rightarrow> (case fm k of None \<Rightarrow> True | Some f \<Rightarrow> f \<notin> bad))"

text \<open>
  The routing the specification asks for: every line, unchanged, paired with the sink of
  its own identifier; lines without a sink are left out.
\<close>

definition routed :: "(int \<rightharpoonup> string) \<Rightarrow> string list \<Rightarrow> (string \<times> string) list" where
  "routed fm ls = concat (map (\<lambda>l. case sink_of fm l of None \<Rightarrow> [] | Some f \<Rightarrow> [(f, l)]) ls)"

subsection \<open>A run over the whole catalog\<close>

text \<open>
  The identifiers of the \<open>j\<close>-th window of \<open>b\<close> rows, the query the code builds for a list
  of claimed identifiers (lines 157 and 172 to 176), the non-trailing lines of the
  answer to it, and the data of the writes that went to one file, in order.
\<close>

definition batch :: "catalog \<Rightarrow> nat \<Rightarrow> nat \<Rightarrow> string list" where
  "batch cat b j = map NORADID (take b (drop (j * b) (rows cat)))"

definition batch_request :: "env \<Rightarrow> string list \<Rightarrow> string" where
  "batch_request E ids = queryURL E (butlast (concat (map (\<lambda>i. i @ '','') ids)))"

definition batch_lines :: "env \<Rightarrow> string list \<Rightarrow> string list" where
  "batch_lines E ids =
     (case remote E (loginurl E) (batch_request E ids) of
        None \<Rightarrow> []
      | Some resp \<Rightarrow> butlast (Split_newline resp))"

definition written_to :: "world \<Rightarrow> string \<Rightarrow> string list" where
  "written_to w p = map snd (filter (\<lambda>fs. fst fs = p) (writes w))"

subsection \<open>Concrete inputs used below\<close>

definition nl :: string where
  "nl = [CHR 0x0A]"

definition world0 :: world where
  "world0 = \<lparr>contents = Map.empty, create_faults = {}, write_faults = {}, created = [],
     skipped = [], requests = [], writes = []\<rparr>"

definition sink5 :: "int \<rightharpoonup> string" where
  "sink5 = [5 \<mapsto> ''d/5.tle'']"

definition env0 :: env where
  "env0 = \<lparr>apiroot = ''R'', loginurl = ''L'',
            remote = (\<lambda>u q. Some (''1 00100 a'' @ nl @ ''2 00200 b'' @ nl))\<rparr>"

definition rows3 :: "SatcatRow list" where
  "rows3 = [row ''100'', row ''200'', row ''300'']"

definition world1 :: world where
  "world1 = world0\<lparr>contents := [''d/100.tle'' \<mapsto> ''x'']\<rparr>"

definition world12 :: world where
  "world12 = world0\<lparr>contents := [''d/100.tle'' \<mapsto> ''x'', ''d/200.tle'' \<mapsto> ''y'']\<rparr>"

definition claims200 :: claims where
  "claims200 = \<lparr>noradIDQuery = ''200,'', noradIDs = [''200''], files = [200 \<mapsto> ''d/200.tle'']\<rparr>"

definition env2 :: env where
  "env2 = \<lparr>apiroot = ''R'', loginurl = ''L'',
            remote = (\<lambda>u q. Some (''1 00100 a'' @ nl @ ''2 00100 b'' @ nl))\<rparr>"

definition rows2 :: "SatcatRow list" where
  "rows2 = [row ''100'', row ''200'']"

section \<open>Properties\<close>

lemmas go_simps = Atoi_def is_digit_def decimal_def digit_val_def Trim_space_def lineID_def

lemmas demux_simps = demux_def demux_step_def WriteString_def file_bytes_def final_def sink_of_def

lemmas cycle_simps = FetchTLEsForSATCAT_def window_def backing_def claim_step_def OpenFile_def
  filename_def no_claims_def STPOST_def queryURL_def row_def zero_row_def

subsection \<open>Evaluations on the concrete inputs\<close>

lemma claim_loop_world1: "claim_loop ''d'' [row ''100'', row ''200''] (no_claims, world1)
    = Inr (claims200, world1\<lparr>contents := [''d/100.tle'' \<mapsto> ''x'', ''d/200.tle'' \<mapsto> []],
         created := [''d/200.tle''], skipped := [''d/100.tle'']\<rparr>)"
  by (simp add: cycle_simps go_simps world1_def world0_def claims200_def)

lemma window_rows3_start: "window \<lparr>rows = rows3, capacity = 4\<rparr> 0 2 = Some [row ''100'', row ''200'']"
  by (simp add: window_def backing_def rows3_def)

lemma claim_loop_world12: "claim_loop ''d'' [row ''100'', row ''200''] (no_claims, world12)
    = Inr (no_claims, world12\<lparr>skipped := [''d/100.tle'', ''d/200.tle'']\<rparr>)"
  by (simp add: cycle_simps go_simps world12_def world0_def)

subsection \<open>Splitting a response\<close>

lemma Split_newline_not_Nil [simp]: "Split_newline s \<noteq> []"
  by (induction s) (simp_all split: list.splits)

lemma Split_newline_no_nl: "CHR 0x0A \<notin> set t \<Longrightarrow> Split_newline t = [t]"
  by (induction t) auto

lemma Split_newline_append:
  "CHR 0x0A \<notin> set t \<Longrightarrow> Split_newline (r @ CHR 0x0A # t) = Split_newline r @ [t]"
proof (induction r)
  case Nil
  then show ?case by (simp add: Split_newline_no_nl)
next
  case (Cons c r)
  then show ?case by (cases "Split_newline r") simp_all
qed

subsection \<open>The loop over the lines\<close>

lemma demux_loop_append:
  "demux_loop fm (xs @ ys) w =
     (case demux_loop fm xs w of Inl a \<Rightarrow> Inl a | Inr w' \<Rightarrow> demux_loop fm ys w')"
  by (induction xs arbitrary: w) (simp_all split: sum.splits)

lemma demux_step_world:
  "demux_step fm l w = Inr w' \<Longrightarrow>
     write_faults w' = write_faults w \<and> create_faults w' = create_faults w"
  by (auto simp: demux_step_def WriteString_def split: sum.splits option.splits if_splits)

lemma demux_step_ok: "line_ok fm (write_faults w) l \<longleftrightarrow> (\<exists>w'. demux_step fm l w = Inr w')"
  by (auto simp: line_ok_def demux_step_def WriteString_def split: sum.splits option.splits)

lemma demux_step_Inl: "demux_step fm l w = Inl a \<Longrightarrow> snd a = w"
  by (auto simp: demux_step_def split: sum.splits option.splits)

lemma demux_step_writes:
  "demux_step fm l w = Inr w' \<Longrightarrow> writes w' = writes w @ routed fm [l]"
  by (auto simp: demux_step_def WriteString_def routed_def sink_of_def
      split: sum.splits option.splits if_splits)

lemma demux_step_bytes:
  "demux_step fm l w = Inr w' \<Longrightarrow>
     file_bytes w' p = file_bytes w p @ (if sink_of fm l = Some p then l else [])"
  by (auto simp: demux_step_def WriteString_def sink_of_def file_bytes_def
      split: sum.splits option.splits if_splits)

lemma routed_iff: "(f, l) \<in> set (routed fm ls) \<longleftrightarrow> l \<in> set ls \<and> sink_of fm l = Some f"
  by (auto simp: routed_def split: option.splits)

lemma demux_loop_writes:
  "writes (final (demux_loop fm ls w)) =
     writes w @ routed fm (takeWhile (line_ok fm (write_faults w)) ls)"
proof (induction ls arbitrary: w)
  case Nil
  then show ?case by (simp add: final_def routed_def)
next
  case (Cons l ls)
  show ?case
  proof (cases "demux_step fm l w")
    case (Inl a)
    then have nok: "\<not> line_ok fm (write_faults w) l" by (simp add: demux_step_ok)
    from Inl have "snd a = w" by (rule demux_step_Inl)
    with Inl nok show ?thesis by (simp add: final_def routed_def)
  next
    case (Inr w1)
    then have ok: "line_ok fm (write_faults w) l" by (auto simp: demux_step_ok)
    from Inr have eq: "write_faults w1 = write_faults w"
      by (simp add: demux_step_world)
    from Inr have wr: "writes w1 = writes w @ routed fm [l]" by (rule demux_step_writes)
    have "writes (final (demux_loop fm (l # ls) w)) = writes (final (demux_loop fm ls w1))"
      using Inr by simp
    also have "\<dots> = writes w1 @ routed fm (takeWhile (line_ok fm (write_faults w1)) ls)"
      by (rule Cons.IH)
    also have "\<dots> = writes w @ routed fm (l # takeWhile (line_ok fm (write_faults w)) ls)"
      unfolding eq wr by (simp add: routed_def)
    finally show ?thesis using ok by simp
  qed
qed

lemma demux_loop_bytes:
  "file_bytes (final (demux_loop fm ls w)) p =
     file_bytes w p @ concat (filter (\<lambda>l. sink_of fm l = Some p)
       (takeWhile (line_ok fm (write_faults w)) ls))"
proof (induction ls arbitrary: w)
  case Nil
  then show ?case by (simp add: final_def)
next
  case (Cons l ls)
  show ?case
  proof (cases "demux_step fm l w")
    case (Inl a)
    then have nok: "\<not> line_ok fm (write_faults w) l" by (simp add: demux_step_ok)
    from Inl have "snd a = w" by (rule demux_step_Inl)
    with Inl nok show ?thesis by (simp add: final_def)
  next
    case (Inr w1)
    then have ok: "line_ok fm (write_faults w) l" by (auto simp: demux_step_ok)
    from Inr have eq: "write_faults w1 = write_faults w"
      by (simp add: demux_step_world)
    from Inr have by1:
      "file_bytes w1 p = file_bytes w p @ (if sink_of fm l = Some p then l else [])"
      by (rule demux_step_bytes)
    have "file_bytes (final (demux_loop fm (l # ls) w)) p
        = file_bytes (final (demux_loop fm ls w1)) p"
      using Inr by simp
    also have "\<dots> = file_bytes w1 p @ concat (filter (\<lambda>l. sink_of fm l = Some p)
       (takeWhile (line_ok fm (write_faults w1)) ls))"
      by (rule Cons.IH)
    finally show ?thesis using ok unfolding eq by1 by simp
  qed
qed

lemma demux_loop_Inr:
  "(\<exists>w'. demux_loop fm ls w = Inr w') \<longleftrightarrow> list_all (line_ok fm (write_faults w)) ls"
proof (induction ls arbitrary: w)
  case Nil
  then show ?case by simp
next
  case (Cons l ls)
  show ?case
  proof (cases "demux_step fm l w")
    case (Inl a)
    then have "\<not> line_ok fm (write_faults w) l" by (simp add: demux_step_ok)
    with Inl show ?thesis by simp
  next
    case (Inr w1)
    then have ok: "line_ok fm (write_faults w) l" by (auto simp: demux_step_ok)
    from Inr have eq: "write_faults w1 = write_faults w"
      by (simp add: demux_step_world)
    have "(\<exists>w'. demux_loop fm (l # ls) w = Inr w') \<longleftrightarrow> (\<exists>w'. demux_loop fm ls w1 = Inr w')"
      using Inr by simp
    also have "\<dots> \<longleftrightarrow> list_all (line_ok fm (write_faults w1)) ls"
      by (rule Cons.IH)
    finally show ?thesis using ok eq by simp
  qed
qed

subsection \<open>Lines without a sink\<close>

text \<open>
  Claim C6. A non-trailing line whose identifier parses and has no entry in the sink map
  is dropped: its iteration changes nothing and reports nothing, and the response
  demultiplexes exactly as the response without that line does.
\<close>

theorem unmapped_line_dropped:
  assumes "lineID l = Inr k" and "fm k = None"
    and "butlast (Split_newline resp) = xs @ l # ys"
    and "butlast (Split_newline resp') = xs @ ys"
  shows "demux_step fm l w = Inr w \<and> demux fm resp w = demux fm resp' w"
proof -
  from assms(1,2) have step: "demux_step fm l w1 = Inr w1" for w1
    by (simp add: demux_step_def)
  have "demux_loop fm (xs @ l # ys) w = demux_loop fm (xs @ ys) w"
    by (simp add: demux_loop_append step split: sum.splits)
  with assms(3,4) step show ?thesis by (simp add: demux_def)
qed

theorem unmapped_line_dropped_witness:
  "lineID ''1 00007 x'' = Inr 7 \<and> sink5 7 = None
   \<and> demux sink5 (''1 00005 a'' @ nl @ ''1 00007 x'' @ nl @ ''2 00005 b'' @ nl) world0
       = demux sink5 (''1 00005 a'' @ nl @ ''2 00005 b'' @ nl) world0
   \<and> demux_step sink5 ''1 00007 x'' world0 = Inr world0"
proof -
  have 1: "lineID ''1 00007 x'' = Inr 7" by (simp add: go_simps)
  have 2: "sink5 7 = None" by (simp add: sink5_def)
  have 3: "butlast (Split_newline (''1 00005 a'' @ nl @ ''1 00007 x'' @ nl @ ''2 00005 b'' @ nl))
       = [''1 00005 a''] @ ''1 00007 x'' # [''2 00005 b'']"
    by (simp add: nl_def)
  have 4: "butlast (Split_newline (''1 00005 a'' @ nl @ ''2 00005 b'' @ nl))
       = [''1 00005 a''] @ [''2 00005 b'']"
    by (simp add: nl_def)
  from unmapped_line_dropped [where fm = sink5 and xs = "[''1 00005 a'']"
      and ys = "[''2 00005 b'']" and w = world0, OF 1 2 3 4] 1 2
  show ?thesis by simp
qed

subsection \<open>What is fatal in a response\<close>

text \<open>
  Claim C7, as the code has it. A non-trailing line whose identifier cannot be extracted
  and parsed is fatal: the process dies in the demultiplexer. An identifier without an
  entry in the sink map is not fatal: when the identifier of every non-trailing line
  parses and no write to a mapped sink fails, the demultiplexer returns, mapped or not.
\<close>

theorem unparsable_fatal_unmapped_not:
  "(l \<in> set (butlast (Split_newline resp)) \<longrightarrow> (\<exists>e. lineID l = Inl e)
      \<longrightarrow> (\<exists>a. demux fm resp w = Inl a))
   \<and> ((\<forall>l\<in>set (butlast (Split_newline resp)).
          \<exists>k. lineID l = Inr k \<and> (\<forall>f. fm k = Some f \<longrightarrow> f \<notin> write_faults w))
      \<longrightarrow> (\<exists>w'. demux fm resp w = Inr w'))"
proof (intro conjI impI)
  assume mem: "l \<in> set (butlast (Split_newline resp))" and "\<exists>e. lineID l = Inl e"
  then have "\<not> line_ok fm (write_faults w) l"
    by (auto simp: line_ok_def)
  with mem have "\<not> list_all (line_ok fm (write_faults w)) (butlast (Split_newline resp))"
    by (auto simp: list_all_iff)
  then have "\<not> (\<exists>w'. demux fm resp w = Inr w')"
    by (simp add: demux_def demux_loop_Inr)
  then show "\<exists>a. demux fm resp w = Inl a"
    by (cases "demux fm resp w") auto
next
  assume "\<forall>l\<in>set (butlast (Split_newline resp)).
          \<exists>k. lineID l = Inr k \<and> (\<forall>f. fm k = Some f \<longrightarrow> f \<notin> write_faults w)"
  then have "list_all (line_ok fm (write_faults w)) (butlast (Split_newline resp))"
    by (auto simp: list_all_iff line_ok_def split: option.splits)
  then show "\<exists>w'. demux fm resp w = Inr w'"
    by (simp add: demux_def demux_loop_Inr)
qed

text \<open>
  Claim C7 as stated fails: the line below yields identifier 7, which has no entry in the
  sink map, and the demultiplexer returns with nothing changed.
\<close>

theorem unmapped_line_not_fatal:
  "lineID ''1 00007 x'' = Inr 7 \<and> sink5 7 = None
   \<and> demux sink5 (''1 00007 x'' @ nl) world0 = Inr world0"
  by (simp add: go_simps demux_simps nl_def sink5_def world0_def)

theorem unparsable_fatal_unmapped_not_witness:
  "(\<exists>a. demux sink5 (''1 0000x a'' @ nl) world0 = Inl a)
   \<and> (\<exists>w'. demux sink5 (''1 00007 x'' @ nl @ ''1 00005 a'' @ nl) world0 = Inr w')"
proof -
  have 1: "butlast (Split_newline (''1 0000x a'' @ nl)) = [''1 0000x a'']"
    by (simp add: nl_def)
  have 2: "lineID ''1 0000x a'' = Inl FatalLineID" by (simp add: go_simps)
  have 3: "butlast (Split_newline (''1 00007 x'' @ nl @ ''1 00005 a'' @ nl))
      = [''1 00007 x'', ''1 00005 a'']"
    by (simp add: nl_def)
  have 4: "lineID ''1 00007 x'' = Inr 7" "lineID ''1 00005 a'' = Inr 5"
    by (simp_all add: go_simps)
  have 5: "write_faults world0 = {}" by (simp add: world0_def)
  from unparsable_fatal_unmapped_not [of "''1 0000x a''" "''1 0000x a'' @ nl" sink5 world0] 1 2
  have a: "\<exists>a. demux sink5 (''1 0000x a'' @ nl) world0 = Inl a" by simp
  from unparsable_fatal_unmapped_not [of _ "''1 00007 x'' @ nl @ ''1 00005 a'' @ nl" sink5 world0]
    3 4 5
  have b: "\<exists>w'. demux sink5 (''1 00007 x'' @ nl @ ''1 00005 a'' @ nl) world0 = Inr w'"
    by simp
  from a b show ?thesis by simp
qed

subsection \<open>Short lines\<close>

text \<open>
  Claim C9, as the code has it. The identifier is cut out of bytes 2 to 6 without a check
  of the length, so
  its extraction faults with the bounds panic exactly on the lines of fewer than 7 bytes,
  and the iteration on such a line dies of that panic, never of a parse failure. A
  response with such a non-trailing line never demultiplexes to the end, and when the
  lines before it pass, the process dies of the bounds panic at that line.
\<close>

theorem short_line_bounds_panic:
  assumes "length l < 7" and "butlast (Split_newline resp) = xs @ l # ys"
  shows "lineID l = Inl PanicLineBounds
    \<and> (\<forall>w1. demux_step fm l w1 = Inl (PanicLineBounds, w1))
    \<and> (\<exists>a. demux fm resp w = Inl a)
    \<and> (\<forall>w1. demux_loop fm xs w = Inr w1 \<longrightarrow> demux fm resp w = Inl (PanicLineBounds, w1))
    \<and> (\<forall>l'. (lineID l' = Inl PanicLineBounds) = (length l' < 7))"
proof -
  have iff: "(lineID l' = Inl PanicLineBounds) = (length l' < 7)" for l'
    by (simp add: lineID_def split: option.splits)
  with assms(1) have id: "lineID l = Inl PanicLineBounds" by simp
  then have step: "demux_step fm l w1 = Inl (PanicLineBounds, w1)" for w1
    by (simp add: demux_step_def)
  have "\<exists>a. demux_loop fm (xs @ l # ys) w = Inl a"
    by (simp add: demux_loop_append step split: sum.splits)
  moreover have "demux_loop fm xs w = Inr w1
      \<Longrightarrow> demux_loop fm (xs @ l # ys) w = Inl (PanicLineBounds, w1)" for w1
    by (simp add: demux_loop_append step)
  ultimately show ?thesis using id iff step assms(2) by (simp add: demux_def)
qed

text \<open>
  Claim C9 as stated fails: the response below has an interior empty line, and the
  process dies of the parse failure of the line before it; no bounds panic occurs.
\<close>

theorem earlier_line_fault_comes_first:
  "butlast (Split_newline (''xxxxxxxxx'' @ nl @ nl @ ''2 00005 b'' @ nl))
     = [''xxxxxxxxx'', [], ''2 00005 b'']
   \<and> length ([] :: string) < 7
   \<and> demux sink5 (''xxxxxxxxx'' @ nl @ nl @ ''2 00005 b'' @ nl) world0
       = Inl (FatalLineID, world0)"
  by (simp add: go_simps demux_simps nl_def sink5_def world0_def)

theorem short_line_bounds_panic_witness:
  "lineID [] = Inl PanicLineBounds
   \<and> demux sink5 (''1 00005 a'' @ nl @ nl @ ''2 00005 b'' @ nl) world0
       = Inl (PanicLineBounds, world0\<lparr>contents := [''d/5.tle'' \<mapsto> ''1 00005 a''],
                                       writes := [(''d/5.tle'', ''1 00005 a'')]\<rparr>)"
proof -
  have 1: "length ([] :: string) < 7" by simp
  have 2: "butlast (Split_newline (''1 00005 a'' @ nl @ nl @ ''2 00005 b'' @ nl))
      = [''1 00005 a''] @ [] # [''2 00005 b'']"
    by (simp add: nl_def)
  have 3: "demux_loop sink5 [''1 00005 a''] world0
      = Inr (world0\<lparr>contents := [''d/5.tle'' \<mapsto> ''1 00005 a''],
                                       writes := [(''d/5.tle'', ''1 00005 a'')]\<rparr>)"
    by (simp add: go_simps demux_simps sink5_def world0_def)
  from short_line_bounds_panic [where fm = sink5 and w = world0 and xs = "[''1 00005 a'']"
      and ys = "[''2 00005 b'']", OF 1 2] 3
  show ?thesis by simp
qed

subsection \<open>The last segment\<close>

text \<open>
  Claim C10. The loop leaves out the last segment of the split, empty or not. A response
  whose last line \<open>t\<close> has no line feed after it demultiplexes as the lines before \<open>t\<close>
  alone do: \<open>t\<close> is neither parsed nor written, whatever it holds; a response that is a
  single unterminated line changes nothing.
\<close>

theorem last_segment_discarded:
  assumes "CHR 0x0A \<notin> set t"
  shows "Split_newline (r @ CHR 0x0A # t) = Split_newline r @ [t]
    \<and> demux fm (r @ CHR 0x0A # t) w = demux_loop fm (Split_newline r) w
    \<and> Split_newline t = [t]
    \<and> demux fm t w = Inr w"
  using assms by (simp add: demux_def Split_newline_append Split_newline_no_nl)

theorem last_segment_discarded_witness:
  "demux sink5 (''1 00005 a'' @ CHR 0x0A # ''2 00005 b'') world0
     = Inr (world0\<lparr>contents := [''d/5.tle'' \<mapsto> ''1 00005 a''],
                                       writes := [(''d/5.tle'', ''1 00005 a'')]\<rparr>)
   \<and> demux sink5 ''2 00005 b'' world0 = Inr world0"
proof -
  have 1: "CHR 0x0A \<notin> set ''2 00005 b''" by simp
  have 2: "demux_loop sink5 (Split_newline ''1 00005 a'') world0
      = Inr (world0\<lparr>contents := [''d/5.tle'' \<mapsto> ''1 00005 a''],
                                       writes := [(''d/5.tle'', ''1 00005 a'')]\<rparr>)"
    by (simp add: go_simps demux_simps sink5_def world0_def)
  from last_segment_discarded [OF 1, of "''1 00005 a''" sink5 world0] 2 show ?thesis by simp
qed

subsection \<open>Signed addition without overflow\<close>

lemma stb_hi:
  fixes k :: int
  assumes "2 ^ 63 \<le> k" and "k < 2 ^ 64"
  shows "signed_take_bit 63 k = k - 2 ^ 64"
proof -
  have "(k + 2 ^ 63) mod 2 ^ 64 = (k + 2 ^ 63 - 2 ^ 64) mod (2 ^ 64 :: int)"
    by (rule minus_mod_self2 [symmetric])
  also have "\<dots> = k + 2 ^ 63 - 2 ^ 64"
    using assms by (intro mod_pos_pos_trivial) simp_all
  finally show ?thesis
    by (simp add: signed_take_bit_eq_take_bit_shift take_bit_eq_mod)
qed

lemma sint_add_exact:
  fixes a b :: "64 word"
  assumes "0 \<le> sint a" and "sint a \<le> sint (a + b)"
  shows "sint (a + b) = sint a + sint b"
proof -
  have ra: "sint a < 2 ^ 63" using sint_lt [of a] by simp
  have rb: "- (2 ^ 63) \<le> sint b" "sint b < 2 ^ 63"
    using sint_ge [of b] sint_lt [of b] by simp_all
  have eq: "sint (a + b) = signed_take_bit 63 (sint a + sint b)"
    by (simp add: sint_word_ariths)
  show ?thesis
  proof (cases "sint a + sint b < 2 ^ 63")
    case True
    with assms rb have "- (2 ^ 63) \<le> sint a + sint b" by simp
    with True show ?thesis unfolding eq
      by (simp add: signed_take_bit_int_eq_self)
  next
    case False
    then have ge: "2 ^ 63 \<le> sint a + sint b" by simp
    from ra rb have lt: "sint a + sint b < 2 ^ 64" by simp
    from stb_hi [OF ge lt] have "sint (a + b) = sint a + sint b - 2 ^ 64"
      by (simp add: eq)
    with assms ra rb show ?thesis by simp
  qed
qed

subsection \<open>The loop over the window\<close>

lemma claim_loop_append:
  "claim_loop d (xs @ ys) cw =
     (case claim_loop d xs cw of Inl a \<Rightarrow> Inl a | Inr cw' \<Rightarrow> claim_loop d ys cw')"
  by (induction xs arbitrary: cw) (simp_all split: sum.splits)

lemma filename_inj: "filename d i = filename d i' \<longleftrightarrow> i = i'"
  by (simp add: filename_def)

lemma claim_step_exists:
  "contents w (filename d (NORADID v)) \<noteq> None \<Longrightarrow>
     claim_step d v (c, w) = Inr (c, w\<lparr>skipped := skipped w @ [filename d (NORADID v)]\<rparr>)"
  by (simp add: claim_step_def OpenFile_def)

lemma claim_step_fault:
  "contents w (filename d (NORADID v)) = None \<Longrightarrow> filename d (NORADID v) \<in> create_faults w \<Longrightarrow>
     claim_step d v (c, w) = Inl (FatalClaim, w)"
  by (simp add: claim_step_def OpenFile_def)

lemma claim_step_created:
  "contents w (filename d (NORADID v)) = None \<Longrightarrow> filename d (NORADID v) \<notin> create_faults w \<Longrightarrow>
     claim_step d v (c, w) =
       (case Atoi (NORADID v) of
          None \<Rightarrow> Inl (FatalCatalogID,
                    w\<lparr>contents := (contents w)(filename d (NORADID v) \<mapsto> []),
                      created := created w @ [filename d (NORADID v)]\<rparr>)
        | Some k \<Rightarrow>
            Inr (c\<lparr>noradIDQuery := noradIDQuery c @ NORADID v @ '','',
                   noradIDs := noradIDs c @ [NORADID v],
                   files := (files c)(k \<mapsto> filename d (NORADID v))\<rparr>,
                 w\<lparr>contents := (contents w)(filename d (NORADID v) \<mapsto> []),
                   created := created w @ [filename d (NORADID v)]\<rparr>))"
  by (simp add: claim_step_def OpenFile_def split: option.splits)

lemma claim_step_cases:
  obtains (exists) "contents w (filename d (NORADID v)) \<noteq> None"
      "claim_step d v (c, w) = Inr (c, w\<lparr>skipped := skipped w @ [filename d (NORADID v)]\<rparr>)"
  | (fault) "contents w (filename d (NORADID v)) = None"
      "claim_step d v (c, w) = Inl (FatalClaim, w)"
  | (badid) "contents w (filename d (NORADID v)) = None" "Atoi (NORADID v) = None"
      "claim_step d v (c, w) = Inl (FatalCatalogID,
                    w\<lparr>contents := (contents w)(filename d (NORADID v) \<mapsto> []),
                      created := created w @ [filename d (NORADID v)]\<rparr>)"
  | (claimed) k where "contents w (filename d (NORADID v)) = None" "Atoi (NORADID v) = Some k"
      "claim_step d v (c, w) = Inr (c\<lparr>noradIDQuery := noradIDQuery c @ NORADID v @ '','',
                   noradIDs := noradIDs c @ [NORADID v],
                   files := (files c)(k \<mapsto> filename d (NORADID v))\<rparr>,
                 w\<lparr>contents := (contents w)(filename d (NORADID v) \<mapsto> []),
                   created := created w @ [filename d (NORADID v)]\<rparr>)"
proof (cases "contents w (filename d (NORADID v)) \<noteq> None")
  case True
  then show ?thesis using exists claim_step_exists by blast
next
  case False
  then have none: "contents w (filename d (NORADID v)) = None" by simp
  show ?thesis
  proof (cases "filename d (NORADID v) \<in> create_faults w")
    case True
    with none show ?thesis using fault claim_step_fault by blast
  next
    case nf: False
    show ?thesis
    proof (cases "Atoi (NORADID v)")
      case None
      with none nf show ?thesis using badid [OF none None] by (simp add: claim_step_created)
    next
      case (Some k)
      with none nf show ?thesis using claimed [OF none Some] by (simp add: claim_step_created)
    qed
  qed
qed

subsection \<open>The outcomes of a claim\<close>

text \<open>
  Claim C5. When the claim loop reaches a row, the exclusive creation of its artifact
  has three outcomes and no other. The artifact exists: the conflict is logged, nothing
  else changes, and the loop goes on with the claims it had, so the identifier is in
  neither the query nor the sink map. The creation fails otherwise: the process dies
  there. The creation succeeds: the empty artifact exists from then on, and when the
  iteration returns, the identifier is in the batch and its sink is registered.
\<close>

theorem claim_failure_modes:
  assumes "claim_loop d xs cw0 = Inr (c, w)"
  shows "(contents w (filename d (NORADID v)) \<noteq> None \<longrightarrow>
            claim_loop d (xs @ v # ys) cw0 =
              claim_loop d ys (c, w\<lparr>skipped := skipped w @ [filename d (NORADID v)]\<rparr>))
       \<and> (contents w (filename d (NORADID v)) = None \<and> filename d (NORADID v) \<in> create_faults w \<longrightarrow>
            claim_loop d (xs @ v # ys) cw0 = Inl (FatalClaim, w))
       \<and> (contents w (filename d (NORADID v)) = None \<and> filename d (NORADID v) \<notin> create_faults w \<longrightarrow>
            contents (final2 (claim_step d v (c, w))) (filename d (NORADID v)) = Some []
            \<and> (\<forall>c' w'. claim_step d v (c, w) = Inr (c', w') \<longrightarrow>
                  noradIDs c' = noradIDs c @ [NORADID v]
                  \<and> filename d (NORADID v) \<in> ran (files c')))"
  using assms
  by (auto simp: claim_loop_append claim_step_exists claim_step_fault claim_step_created
      final2_def ran_def split: option.splits)

theorem claim_failure_modes_witness:
  "claim_loop ''d'' [row ''100''] (no_claims, world1)
     = Inr (no_claims, world1\<lparr>skipped := [''d/100.tle'']\<rparr>)
   \<and> claim_loop ''d'' [row ''100''] (no_claims, world0\<lparr>create_faults := {''d/100.tle''}\<rparr>)
     = Inl (FatalClaim, world0\<lparr>create_faults := {''d/100.tle''}\<rparr>)
   \<and> contents (final2 (claim_step ''d'' (row ''100'') (no_claims, world0))) ''d/100.tle'' = Some []"
proof -
  have 0: "claim_loop ''d'' [] (no_claims, w) = Inr (no_claims, w)" for w by simp
  have f: "filename ''d'' (NORADID (row ''100'')) = ''d/100.tle''"
    by (simp add: filename_def row_def)
  have 1: "contents world1 ''d/100.tle'' \<noteq> None"
    by (simp add: world1_def world0_def)
  have 2: "contents (world0\<lparr>create_faults := {''d/100.tle''}\<rparr>) ''d/100.tle'' = None
      \<and> ''d/100.tle'' \<in> create_faults (world0\<lparr>create_faults := {''d/100.tle''}\<rparr>)"
    by (simp add: world0_def)
  have 3: "contents world0 ''d/100.tle'' = None \<and> ''d/100.tle'' \<notin> create_faults world0"
    by (simp add: world0_def)
  from claim_failure_modes [OF 0 [of world1], where v = "row ''100''" and ys = "[]"] 1
  have a: "claim_loop ''d'' [row ''100''] (no_claims, world1)
     = Inr (no_claims, world1\<lparr>skipped := skipped world1 @ [''d/100.tle'']\<rparr>)"
    by (simp add: f)
  from claim_failure_modes [OF 0 [of "world0\<lparr>create_faults := {''d/100.tle''}\<rparr>"],
      where v = "row ''100''" and ys = "[]"] 2
  have b: "claim_loop ''d'' [row ''100''] (no_claims, world0\<lparr>create_faults := {''d/100.tle''}\<rparr>)
     = Inl (FatalClaim, world0\<lparr>create_faults := {''d/100.tle''}\<rparr>)"
    by (simp add: f)
  from claim_failure_modes [OF 0 [of world0], where v = "row ''100''" and ys = "[]"] 3
  have c: "contents (final2 (claim_step ''d'' (row ''100'') (no_claims, world0))) ''d/100.tle'' = Some []"
    by (simp add: f)
  from a b c show ?thesis by (simp add: world1_def world0_def)
qed

subsection \<open>What the loop over the window leaves unchanged\<close>

lemma claim_step_frame:
  "create_faults (final2 (claim_step d v (c, w))) = create_faults w
   \<and> write_faults (final2 (claim_step d v (c, w))) = write_faults w
   \<and> requests (final2 (claim_step d v (c, w))) = requests w
   \<and> writes (final2 (claim_step d v (c, w))) = writes w"
  by (cases rule: claim_step_cases [of w d v c]) (simp_all add: final2_def)

lemma claim_step_keeps:
  "contents w p \<noteq> None \<Longrightarrow> contents (final2 (claim_step d v (c, w))) p = contents w p"
  by (cases rule: claim_step_cases [of w d v c]) (auto simp: final2_def)

lemma claim_step_created_exist:
  "created_exist w \<Longrightarrow> created_exist (final2 (claim_step d v (c, w)))"
  by (cases rule: claim_step_cases [of w d v c]) (auto simp: final2_def created_exist_def)

lemma claim_loop_Cons_final:
  "final2 (claim_loop d (v # vs) (c, w)) =
     (case claim_step d v (c, w) of
        Inl a \<Rightarrow> final2 (claim_step d v (c, w))
      | Inr cw \<Rightarrow> final2 (claim_loop d vs cw))"
  by (simp add: final2_def split: sum.splits)

lemma claim_loop_frame:
  "create_faults (final2 (claim_loop d vs (c, w))) = create_faults w
   \<and> write_faults (final2 (claim_loop d vs (c, w))) = write_faults w
   \<and> requests (final2 (claim_loop d vs (c, w))) = requests w
   \<and> writes (final2 (claim_loop d vs (c, w))) = writes w"
proof (induction vs arbitrary: c w)
  case Nil
  then show ?case by (simp add: final2_def)
next
  case (Cons v vs)
  show ?case
  proof (cases "claim_step d v (c, w)")
    case (Inl a)
    with claim_step_frame [of d v c w] show ?thesis
      by (simp add: claim_loop_Cons_final)
  next
    case (Inr cw)
    obtain c1 w1 where cw: "cw = (c1, w1)" by (cases cw)
    from Inr cw have "final2 (claim_step d v (c, w)) = w1" by (simp add: final2_def)
    with claim_step_frame [of d v c w] Cons.IH [of c1 w1] Inr cw show ?thesis
      by (simp add: claim_loop_Cons_final)
  qed
qed

lemma claim_loop_keeps:
  "contents w p \<noteq> None \<Longrightarrow> contents (final2 (claim_loop d vs (c, w))) p = contents w p"
proof (induction vs arbitrary: c w)
  case Nil
  then show ?case by (simp add: final2_def)
next
  case (Cons v vs)
  show ?case
  proof (cases "claim_step d v (c, w)")
    case (Inl a)
    with claim_step_keeps [OF Cons.prems, of d v c] show ?thesis
      by (simp add: claim_loop_Cons_final)
  next
    case (Inr cw)
    obtain c1 w1 where cw: "cw = (c1, w1)" by (cases cw)
    from Inr cw have f: "final2 (claim_step d v (c, w)) = w1" by (simp add: final2_def)
    with claim_step_keeps [OF Cons.prems, of d v c] have k: "contents w1 p = contents w p" by simp
    with Cons.prems have "contents w1 p \<noteq> None" by simp
    from Cons.IH [OF this, of c1] k Inr cw show ?thesis
      by (simp add: claim_loop_Cons_final)
  qed
qed

lemma claim_loop_created_exist:
  "created_exist w \<Longrightarrow> created_exist (final2 (claim_loop d vs (c, w)))"
proof (induction vs arbitrary: c w)
  case Nil
  then show ?case by (simp add: final2_def)
next
  case (Cons v vs)
  show ?case
  proof (cases "claim_step d v (c, w)")
    case (Inl a)
    with claim_step_created_exist [OF Cons.prems, of d v c] show ?thesis
      by (simp add: claim_loop_Cons_final)
  next
    case (Inr cw)
    obtain c1 w1 where cw: "cw = (c1, w1)" by (cases cw)
    from Inr cw have f: "final2 (claim_step d v (c, w)) = w1" by (simp add: final2_def)
    with claim_step_created_exist [OF Cons.prems, of d v c] have "created_exist w1" by simp
    from Cons.IH [OF this, of c1] Inr cw show ?thesis
      by (simp add: claim_loop_Cons_final)
  qed
qed

lemma claim_step_shape:
  assumes "claim_step d v (c, w) = Inr (c', w')"
  shows "\<exists>news. noradIDs c' = noradIDs c @ news
      \<and> noradIDQuery c' = noradIDQuery c @ concat (map (\<lambda>i. i @ '','') news)
      \<and> created w' = created w @ map (filename d) news
      \<and> (\<forall>i\<in>set news. contents w (filename d i) = None)
      \<and> ran (files c') \<subseteq> ran (files c) \<union> filename d ` set news"
proof (cases rule: claim_step_cases [of w d v c])
  case exists
  with assms have "c' = c" "w' = w\<lparr>skipped := skipped w @ [filename d (NORADID v)]\<rparr>"
    by simp_all
  then show ?thesis by (intro exI [of _ "[]"]) simp
next
  case fault
  with assms show ?thesis by simp
next
  case badid
  with assms show ?thesis by simp
next
  case (claimed k)
  with assms have c': "c' = c\<lparr>noradIDQuery := noradIDQuery c @ NORADID v @ '','',
                   noradIDs := noradIDs c @ [NORADID v],
                   files := (files c)(k \<mapsto> filename d (NORADID v))\<rparr>"
    and w': "w' = w\<lparr>contents := (contents w)(filename d (NORADID v) \<mapsto> []),
                   created := created w @ [filename d (NORADID v)]\<rparr>"
    by simp_all
  have "ran ((files c)(k \<mapsto> filename d (NORADID v))) \<subseteq> ran (files c) \<union> {filename d (NORADID v)}"
    by (auto simp: ran_def split: if_splits)
  with c' w' claimed(1) show ?thesis
    by (intro exI [of _ "[NORADID v]"]) simp
qed

lemma claim_loop_shape:
  "claim_loop d vs (c, w) = Inr (c', w') \<Longrightarrow>
     \<exists>news. noradIDs c' = noradIDs c @ news
      \<and> noradIDQuery c' = noradIDQuery c @ concat (map (\<lambda>i. i @ '','') news)
      \<and> created w' = created w @ map (filename d) news
      \<and> (\<forall>i\<in>set news. contents w (filename d i) = None)
      \<and> ran (files c') \<subseteq> ran (files c) \<union> filename d ` set news"
proof (induction vs arbitrary: c w)
  case Nil
  then show ?case by (intro exI [of _ "[]"]) simp
next
  case (Cons v vs)
  from Cons.prems obtain c1 w1 where step: "claim_step d v (c, w) = Inr (c1, w1)"
    and rest: "claim_loop d vs (c1, w1) = Inr (c', w')"
    by (auto split: sum.splits)
  from claim_step_shape [OF step] obtain n1 where n1:
    "noradIDs c1 = noradIDs c @ n1"
    "noradIDQuery c1 = noradIDQuery c @ concat (map (\<lambda>i. i @ '','') n1)"
    "created w1 = created w @ map (filename d) n1"
    "\<forall>i\<in>set n1. contents w (filename d i) = None"
    "ran (files c1) \<subseteq> ran (files c) \<union> filename d ` set n1"
    by blast
  from Cons.IH [OF rest] obtain n2 where n2:
    "noradIDs c' = noradIDs c1 @ n2"
    "noradIDQuery c' = noradIDQuery c1 @ concat (map (\<lambda>i. i @ '','') n2)"
    "created w' = created w1 @ map (filename d) n2"
    "\<forall>i\<in>set n2. contents w1 (filename d i) = None"
    "ran (files c') \<subseteq> ran (files c1) \<union> filename d ` set n2"
    by blast
  have keep: "contents w p \<noteq> None \<Longrightarrow> contents w1 p = contents w p" for p
    using claim_step_keeps [of w p d v c] step by (simp add: final2_def)
  have "\<forall>i\<in>set n2. contents w (filename d i) = None"
  proof
    fix i assume "i \<in> set n2"
    with n2(4) have "contents w1 (filename d i) = None" by simp
    with keep [of "filename d i"] show "contents w (filename d i) = None"
      by (cases "contents w (filename d i)") simp_all
  qed
  moreover from n1(5) n2(5)
  have "ran (files c') \<subseteq> ran (files c) \<union> filename d ` set (n1 @ n2)"
    by (simp add: image_Un) blast
  ultimately show ?case using n1(1-4) n2(1-3)
    by (intro exI [of _ "n1 @ n2"]) (simp add: ball_Un)
qed

subsection \<open>One cycle and the scheduler\<close>

lemma demux_step_frame:
  "created (final (demux_step fm l w)) = created w
   \<and> skipped (final (demux_step fm l w)) = skipped w
   \<and> requests (final (demux_step fm l w)) = requests w
   \<and> create_faults (final (demux_step fm l w)) = create_faults w
   \<and> write_faults (final (demux_step fm l w)) = write_faults w
   \<and> dom (contents w) \<subseteq> dom (contents (final (demux_step fm l w)))"
  by (auto simp: demux_step_def WriteString_def final_def split: sum.splits option.splits)

lemma demux_loop_Cons_final:
  "final (demux_loop fm (l # ls) w) =
     (case demux_step fm l w of
        Inl a \<Rightarrow> final (demux_step fm l w)
      | Inr w' \<Rightarrow> final (demux_loop fm ls w'))"
  by (simp add: final_def split: sum.splits)

lemma demux_loop_frame:
  "created (final (demux_loop fm ls w)) = created w
   \<and> skipped (final (demux_loop fm ls w)) = skipped w
   \<and> requests (final (demux_loop fm ls w)) = requests w
   \<and> create_faults (final (demux_loop fm ls w)) = create_faults w
   \<and> write_faults (final (demux_loop fm ls w)) = write_faults w
   \<and> dom (contents w) \<subseteq> dom (contents (final (demux_loop fm ls w)))"
proof (induction ls arbitrary: w)
  case Nil
  then show ?case by (simp add: final_def)
next
  case (Cons l ls)
  show ?case
  proof (cases "demux_step fm l w")
    case (Inl a)
    with demux_step_frame [of fm l w] show ?thesis
      by (simp add: demux_loop_Cons_final)
  next
    case (Inr w1)
    then have "final (demux_step fm l w) = w1" by (simp add: final_def)
    with demux_step_frame [of fm l w] Cons.IH [of w1] Inr show ?thesis
      by (simp add: demux_loop_Cons_final) blast
  qed
qed

lemma demux_created_exist:
  "created_exist w \<Longrightarrow> created_exist (final (demux fm resp w))"
proof -
  assume ce: "created_exist w"
  let ?w = "final (demux_loop fm (butlast (Split_newline resp)) w)"
  from demux_loop_frame [of fm "butlast (Split_newline resp)" w]
  have cr: "created ?w = created w" and sub: "dom (contents w) \<subseteq> dom (contents ?w)"
    by simp_all
  from ce have "distinct (created ?w)"
    by (simp add: created_exist_def cr)
  moreover from ce sub have "set (created ?w) \<subseteq> dom (contents ?w)"
    unfolding created_exist_def cr by blast
  ultimately show ?thesis by (simp add: created_exist_def demux_def)
qed

lemma Fetch_window_None:
  "window cat s n = None \<Longrightarrow> FetchTLEsForSATCAT E cat s n d w = Inl (PanicWindowBounds, w)"
  by (simp add: FetchTLEsForSATCAT_def)

lemma Fetch_claim_Inl:
  "window cat s n = Some vs \<Longrightarrow> claim_loop d vs (no_claims, w) = Inl a \<Longrightarrow>
     FetchTLEsForSATCAT E cat s n d w = Inl a"
  by (simp add: FetchTLEsForSATCAT_def)

lemma Fetch_claim_Inr:
  "window cat s n = Some vs \<Longrightarrow> claim_loop d vs (no_claims, w) = Inr (c, w1) \<Longrightarrow>
     FetchTLEsForSATCAT E cat s n d w =
       (if noradIDQuery c = [] then Inr w1
        else (case remote E (loginurl E) (queryURL E (butlast (noradIDQuery c))) of
                None \<Rightarrow> Inl (PanicTransport,
                  w1\<lparr>requests := requests w1 @ [(loginurl E, queryURL E (butlast (noradIDQuery c)))]\<rparr>)
              | Some resp \<Rightarrow> demux (files c) resp
                  (w1\<lparr>requests := requests w1 @ [(loginurl E, queryURL E (butlast (noradIDQuery c)))]\<rparr>)))"
  by (simp add: FetchTLEsForSATCAT_def STPOST_def Let_def split: option.splits)

lemma Fetch_created_exist:
  assumes "created_exist w"
  shows "created_exist (final (FetchTLEsForSATCAT E cat s n d w))"
proof (cases "window cat s n")
  case None
  with assms show ?thesis by (simp add: Fetch_window_None final_def)
next
  case (Some vs)
  from claim_loop_created_exist [OF assms, of d vs no_claims]
  have ce: "created_exist (final2 (claim_loop d vs (no_claims, w)))" .
  show ?thesis
  proof (cases "claim_loop d vs (no_claims, w)")
    case (Inl a)
    with ce Some show ?thesis by (simp add: Fetch_claim_Inl final_def final2_def)
  next
    case (Inr cw)
    obtain c w1 where cw: "cw = (c, w1)" by (cases cw)
    with Inr ce have ce1: "created_exist w1" by (simp add: final2_def)
    then have ce2: "created_exist (w1\<lparr>requests := r\<rparr>)" for r
      by (simp add: created_exist_def)
    from Inr cw have cl: "claim_loop d vs (no_claims, w) = Inr (c, w1)" by simp
    show ?thesis
      unfolding Fetch_claim_Inr [OF Some cl]
      using ce1 ce2 demux_created_exist [OF ce2]
      by (simp add: final_def split: option.splits)
  qed
qed

lemma scheduler_created_exist:
  "created_exist w \<Longrightarrow> created_exist (final2 (scheduler E cat b d n (cur, w)))"
proof (induction n arbitrary: cur w)
  case 0
  then show ?case by (simp add: final2_def)
next
  case (Suc n)
  from Fetch_created_exist [OF Suc.prems]
  have ce: "created_exist (final (FetchTLEsForSATCAT E cat cur b d w))" .
  show ?case
  proof (cases "FetchTLEsForSATCAT E cat cur b d w")
    case (Inl a)
    with ce show ?thesis by (simp add: final_def final2_def)
  next
    case (Inr w1)
    with ce have "created_exist w1" by (simp add: final_def)
    from Suc.IH [OF this] Inr show ?thesis by simp
  qed
qed

lemma claim_loop_query:
  assumes "claim_loop d vs (no_claims, w) = Inr (c, w1)"
  shows "noradIDQuery c = concat (map (\<lambda>i. i @ '','') (noradIDs c))"
    and "(noradIDQuery c = []) = (noradIDs c = [])"
    and "requests w1 = requests w" and "writes w1 = writes w"
proof -
  from claim_loop_shape [OF assms] show q: "noradIDQuery c = concat (map (\<lambda>i. i @ '','') (noradIDs c))"
    by (auto simp: no_claims_def)
  show "(noradIDQuery c = []) = (noradIDs c = [])"
    unfolding q by (cases "noradIDs c") simp_all
  from claim_loop_frame [of d vs no_claims w] assms
  show "requests w1 = requests w" and "writes w1 = writes w"
    by (simp_all add: final2_def)
qed

lemma Fetch_keeps:
  assumes "contents w p \<noteq> None"
  shows "contents (final (FetchTLEsForSATCAT E cat s n d w)) p \<noteq> None"
proof (cases "window cat s n")
  case None
  with assms show ?thesis by (simp add: Fetch_window_None final_def)
next
  case (Some vs)
  from claim_loop_keeps [OF assms, of d vs no_claims]
  have k: "contents (final2 (claim_loop d vs (no_claims, w))) p = contents w p" .
  show ?thesis
  proof (cases "claim_loop d vs (no_claims, w)")
    case (Inl a)
    with k assms Some show ?thesis by (simp add: Fetch_claim_Inl final_def final2_def)
  next
    case (Inr cw)
    obtain c w1 where cw: "cw = (c, w1)" by (cases cw)
    with Inr k assms have k1: "contents w1 p \<noteq> None" by (simp add: final2_def)
    from Inr cw have cl: "claim_loop d vs (no_claims, w) = Inr (c, w1)" by simp
    have dm: "contents (final (demux (files c) resp (w1\<lparr>requests := r\<rparr>))) p \<noteq> None" for resp r
    proof -
      from k1 have "p \<in> dom (contents (w1\<lparr>requests := r\<rparr>))" by auto
      with demux_loop_frame [of "files c" "butlast (Split_newline resp)" "w1\<lparr>requests := r\<rparr>"]
      have "p \<in> dom (contents (final (demux (files c) resp (w1\<lparr>requests := r\<rparr>))))"
        unfolding demux_def by blast
      then show ?thesis by auto
    qed
    show ?thesis
      unfolding Fetch_claim_Inr [OF Some cl]
      using k1 dm by (simp add: final_def split: option.splits)
  qed
qed

lemma scheduler_keeps:
  "contents w p \<noteq> None \<Longrightarrow> contents (final2 (scheduler E cat b d n (cur, w))) p \<noteq> None"
proof (induction n arbitrary: cur w)
  case 0
  then show ?case by (simp add: final2_def)
next
  case (Suc n)
  from Fetch_keeps [OF Suc.prems]
  have k: "contents (final (FetchTLEsForSATCAT E cat cur b d w)) p \<noteq> None" .
  show ?case
  proof (cases "FetchTLEsForSATCAT E cat cur b d w")
    case (Inl a)
    with k show ?thesis by (simp add: final_def final2_def)
  next
    case (Inr w1)
    with k have "contents w1 p \<noteq> None" by (simp add: final_def)
    from Suc.IH [OF this] Inr show ?thesis by simp
  qed
qed

subsection \<open>The sinks of the claims\<close>

lemma claim_step_named:
  assumes "named_sinks d c" and "claim_step d v (c, w) = Inr (c', w')"
  shows "named_sinks d c'"
proof (cases rule: claim_step_cases [of w d v c])
  case exists
  with assms show ?thesis by simp
next
  case fault
  with assms show ?thesis by simp
next
  case badid
  with assms show ?thesis by simp
next
  case (claimed k)
  with assms(2) have "files c' = (files c)(k \<mapsto> filename d (NORADID v))" by auto
  with assms(1) claimed(2) show ?thesis
    unfolding named_sinks_def by auto
qed

lemma claim_loop_named:
  "named_sinks d c \<Longrightarrow> claim_loop d vs (c, w) = Inr (c', w') \<Longrightarrow> named_sinks d c'"
proof (induction vs arbitrary: c w)
  case Nil
  then show ?case by simp
next
  case (Cons v vs)
  from Cons.prems(2) obtain c1 w1 where step: "claim_step d v (c, w) = Inr (c1, w1)"
    and rest: "claim_loop d vs (c1, w1) = Inr (c', w')"
    by (auto split: sum.splits)
  from claim_step_named [OF Cons.prems(1) step] have "named_sinks d c1" .
  from Cons.IH [OF this rest] show ?case .
qed

lemma claim_loop_sinks_inj:
  assumes "claim_loop d vs (no_claims, w) = Inr (c, w')"
    and "files c k = Some f" and "files c k' = Some f"
  shows "k = k'"
proof -
  have "named_sinks d no_claims" by (simp add: named_sinks_def no_claims_def)
  from claim_loop_named [OF this assms(1)] have n: "named_sinks d c" .
  from n assms(2) obtain i where i: "f = filename d i" "Atoi i = Some k"
    unfolding named_sinks_def by blast
  from n assms(3) obtain i' where i': "f = filename d i'" "Atoi i' = Some k'"
    unfolding named_sinks_def by blast
  from i(1) i'(1) have "i = i'" by (simp add: filename_inj)
  with i(2) i'(2) show ?thesis by simp
qed

subsection \<open>Routing of the response lines\<close>

text \<open>
  Claim C1, as the code has it. The demultiplexer works through the non-trailing lines in
  order and stops at the first one that faults (fewer than 7 bytes, an identifier field
  that is no integer, a failed write); when no line faults it passes all of them. The
  writes it performs are exactly the lines it passed whose identifier has a sink, each
  written unchanged, with nothing added, to the sink of its own identifier and to no
  other; every file ends as what it held before followed by the lines routed to it, in
  the order of the response. This holds for every response, every sink map and every
  order of the lines. In a sink map built by the claim loop no two identifiers share a
  sink, so a line never reaches the sink of another identifier.
\<close>

theorem demux_routes_passed_lines:
  "writes (final (demux fm resp w)) =
     writes w @ routed fm (takeWhile (line_ok fm (write_faults w)) (butlast (Split_newline resp)))
   \<and> (\<forall>p. file_bytes (final (demux fm resp w)) p =
         file_bytes w p @ concat (filter (\<lambda>l. sink_of fm l = Some p)
           (takeWhile (line_ok fm (write_faults w)) (butlast (Split_newline resp)))))
   \<and> ((\<exists>w'. demux fm resp w = Inr w') =
        list_all (line_ok fm (write_faults w)) (butlast (Split_newline resp)))
   \<and> (\<forall>f l ls. ((f, l) \<in> set (routed fm ls)) = (l \<in> set ls \<and> sink_of fm l = Some f))
   \<and> (\<forall>d vs w0 c w1 k k' f. claim_loop d vs (no_claims, w0) = Inr (c, w1)
         \<longrightarrow> files c k = Some f \<longrightarrow> files c k' = Some f \<longrightarrow> k = k')"
proof -
  have "k = k'" if "claim_loop d vs (no_claims, w0) = Inr (c, w1)"
    and "files c k = Some f" and "files c k' = Some f" for d vs w0 c w1 k k' f
    using that by (rule claim_loop_sinks_inj)
  then show ?thesis
    unfolding demux_def
    by (simp add: demux_loop_writes demux_loop_bytes demux_loop_Inr routed_iff)
qed

theorem demux_routes_passed_lines_witness:
  "writes (final (demux (files claims200) (''1 00100 a'' @ nl @ ''2 00200 b'' @ nl) world1))
     = [(''d/200.tle'', ''2 00200 b'')]
   \<and> files claims200 100 \<noteq> Some ''d/200.tle''"
proof -
  note t = demux_routes_passed_lines [of "files claims200"
      "''1 00100 a'' @ nl @ ''2 00200 b'' @ nl" world1]
  have ls: "butlast (Split_newline (''1 00100 a'' @ nl @ ''2 00200 b'' @ nl))
      = [''1 00100 a'', ''2 00200 b'']"
    by (simp add: nl_def)
  have ok: "takeWhile (line_ok (files claims200) (write_faults world1))
      [''1 00100 a'', ''2 00200 b''] = [''1 00100 a'', ''2 00200 b'']"
    by (simp add: line_ok_def go_simps claims200_def world1_def world0_def)
  have rt: "routed (files claims200) [''1 00100 a'', ''2 00200 b''] = [(''d/200.tle'', ''2 00200 b'')]"
    by (simp add: routed_def sink_of_def go_simps claims200_def)
  from t have "writes (final (demux (files claims200) (''1 00100 a'' @ nl @ ''2 00200 b'' @ nl) world1))
      = writes world1 @ routed (files claims200)
          (takeWhile (line_ok (files claims200) (write_faults world1))
            (butlast (Split_newline (''1 00100 a'' @ nl @ ''2 00200 b'' @ nl))))"
    by blast
  then have a: "writes (final (demux (files claims200) (''1 00100 a'' @ nl @ ''2 00200 b'' @ nl) world1))
      = [(''d/200.tle'', ''2 00200 b'')]"
    unfolding ls ok rt by (simp add: world1_def world0_def)
  have f: "files claims200 200 = Some ''d/200.tle''" by (simp add: claims200_def)
  from t claim_loop_world1 f have "files claims200 100 = Some ''d/200.tle'' \<longrightarrow> (200::int) = 100"
    by blast
  then have b: "files claims200 100 \<noteq> Some ''d/200.tle''" by auto
  from a b show ?thesis by simp
qed

text \<open>
  Claim C1 as stated fails: in the response below the third line carries identifier 5,
  a key of the sink map, and is never written, because the second line is fatal.
\<close>

theorem demux_stops_at_fatal_line:
  "sink_of sink5 ''2 00005 b'' = Some ''d/5.tle''
   \<and> butlast (Split_newline (''1 00005 a'' @ nl @ ''xxxxxxxxx'' @ nl @ ''2 00005 b'' @ nl))
       = [''1 00005 a'', ''xxxxxxxxx'', ''2 00005 b'']
   \<and> demux sink5 (''1 00005 a'' @ nl @ ''xxxxxxxxx'' @ nl @ ''2 00005 b'' @ nl) world0
       = Inl (FatalLineID, world0\<lparr>contents := [''d/5.tle'' \<mapsto> ''1 00005 a''],
                                   writes := [(''d/5.tle'', ''1 00005 a'')]\<rparr>)
   \<and> (''d/5.tle'', ''2 00005 b'') \<notin> set (writes (final
        (demux sink5 (''1 00005 a'' @ nl @ ''xxxxxxxxx'' @ nl @ ''2 00005 b'' @ nl) world0)))"
  by (simp add: go_simps demux_simps nl_def sink5_def world0_def)

subsection \<open>Exclusive claims\<close>

text \<open>
  Claim C3. Sinks are obtained by exclusive creation only, so over any number of cycles
  of a run no artifact is opened twice: the handles created stay distinct, in the state
  the run ends in, returned or dead, and an artifact that exists is never removed. An
  identifier whose artifact exists when a cycle
  starts (from before the run or from an earlier cycle) gets no sink in that cycle, is
  not among the identifiers of its query, and the request the cycle posts is built from
  exactly those identifiers.
\<close>

theorem exclusive_claims:
  assumes "distinct (created w)" and "set (created w) \<subseteq> dom (contents w)"
  shows "distinct (created (final2 (scheduler E cat b d n (cur, w))))
     \<and> (\<forall>p. contents w p \<noteq> None
           \<longrightarrow> contents (final2 (scheduler E cat b d n (cur, w))) p \<noteq> None)
     \<and> (\<forall>ident vs c w1. contents w (filename d ident) \<noteq> None
           \<longrightarrow> claim_loop d vs (no_claims, w) = Inr (c, w1)
           \<longrightarrow> ident \<notin> set (noradIDs c) \<and> filename d ident \<notin> ran (files c)
               \<and> filename d ident \<notin> set (drop (length (created w)) (created w1))
               \<and> noradIDQuery c = concat (map (\<lambda>i. i @ '','') (noradIDs c)))
     \<and> (\<forall>vs c w1. window cat cur b = Some vs
           \<longrightarrow> claim_loop d vs (no_claims, w) = Inr (c, w1)
           \<longrightarrow> requests (final (FetchTLEsForSATCAT E cat cur b d w)) =
                 requests w @ (if noradIDs c = [] then []
                   else [(loginurl E,
                          queryURL E (butlast (concat (map (\<lambda>i. i @ '','') (noradIDs c)))))]))"
proof (intro conjI allI impI)
  from assms have "created_exist w" by (simp add: created_exist_def)
  from scheduler_created_exist [OF this]
  show "distinct (created (final2 (scheduler E cat b d n (cur, w))))"
    by (simp add: created_exist_def)
next
  fix p assume "contents w p \<noteq> None"
  then show "contents (final2 (scheduler E cat b d n (cur, w))) p \<noteq> None"
    by (rule scheduler_keeps)
next
  fix ident vs c w1
  assume ex: "contents w (filename d ident) \<noteq> None"
    and cl: "claim_loop d vs (no_claims, w) = Inr (c, w1)"
  from claim_loop_shape [OF cl] obtain news where news:
    "noradIDs c = news" "created w1 = created w @ map (filename d) news"
    "\<forall>i\<in>set news. contents w (filename d i) = None"
    "ran (files c) \<subseteq> filename d ` set news"
    by (auto simp: no_claims_def)
  from news(3) ex have nin: "filename d ident \<notin> filename d ` set news" by auto
  then show "ident \<notin> set (noradIDs c)" using news(1) by auto
  from nin news(4) show "filename d ident \<notin> ran (files c)" by blast
  from nin news(2) show "filename d ident \<notin> set (drop (length (created w)) (created w1))"
    by simp
  from claim_loop_query(1) [OF cl]
  show "noradIDQuery c = concat (map (\<lambda>i. i @ '','') (noradIDs c))" .
next
  fix vs c w1
  assume win: "window cat cur b = Some vs"
    and cl: "claim_loop d vs (no_claims, w) = Inr (c, w1)"
  note q = claim_loop_query [OF cl]
  let ?r = "(loginurl E, queryURL E (butlast (noradIDQuery c)))"
  have dm: "requests (final (demux (files c) resp (w1\<lparr>requests := requests w1 @ [?r]\<rparr>)))
      = requests w1 @ [?r]" for resp
    using demux_loop_frame [of "files c" "butlast (Split_newline resp)"
        "w1\<lparr>requests := requests w1 @ [?r]\<rparr>"]
    by (simp add: demux_def)
  show "requests (final (FetchTLEsForSATCAT E cat cur b d w)) =
      requests w @ (if noradIDs c = [] then []
        else [(loginurl E, queryURL E (butlast (concat (map (\<lambda>i. i @ '','') (noradIDs c)))))])"
  proof (cases "noradIDs c = []")
    case True
    with q(2) have "noradIDQuery c = []" by simp
    with True q(3) show ?thesis
      by (simp add: Fetch_claim_Inr [OF win cl] final_def)
  next
    case False
    with q(2) have ne: "noradIDQuery c \<noteq> []" by simp
    show ?thesis
    proof (cases "remote E (loginurl E) (queryURL E (butlast (noradIDQuery c)))")
      case None
      with ne False q(3) show ?thesis
        by (simp add: Fetch_claim_Inr [OF win cl] final_def q(1) [symmetric])
    next
      case (Some resp)
      with ne False q(3) dm [of resp] show ?thesis
        by (simp add: Fetch_claim_Inr [OF win cl] q(1) [symmetric])
    qed
  qed
qed

theorem exclusive_claims_witness:
  "distinct (created (final2 (scheduler env0 \<lparr>rows = rows3, capacity = 4\<rparr> 2 ''d'' 1 (0, world1))))
   \<and> contents (final2 (scheduler env0 \<lparr>rows = rows3, capacity = 4\<rparr> 2 ''d'' 1 (0, world1)))
         ''d/100.tle'' \<noteq> None
   \<and> ''100'' \<notin> set (noradIDs claims200)
   \<and> ''d/100.tle'' \<notin> ran (files claims200)
   \<and> noradIDQuery claims200 = ''200,''
   \<and> requests (final (FetchTLEsForSATCAT env0 \<lparr>rows = rows3, capacity = 4\<rparr> 0 2 ''d'' world1))
       = [(''L'', ''R/query/class/tle/NORAD_CAT_ID/200/orderby/EPOCH asc/format/tle/metadata/false'')]"
proof -
  have 1: "distinct (created world1)" "set (created world1) \<subseteq> dom (contents world1)"
    by (simp_all add: world1_def world0_def)
  have 2: "contents world1 (filename ''d'' ''100'') \<noteq> None"
    by (simp add: world1_def world0_def filename_def)
  note t = exclusive_claims [OF 1, of env0 "\<lparr>rows = rows3, capacity = 4\<rparr>" 2 "''d''" 1 0]
  from t have a: "distinct (created (final2 (scheduler env0 \<lparr>rows = rows3, capacity = 4\<rparr> 2 ''d'' 1 (0, world1))))"
    by blast
  from t 2 have a': "contents (final2 (scheduler env0 \<lparr>rows = rows3, capacity = 4\<rparr> 2 ''d'' 1 (0, world1)))
         ''d/100.tle'' \<noteq> None"
    unfolding filename_def by simp
  from t 2 claim_loop_world1 have b: "''100'' \<notin> set (noradIDs claims200) \<and> filename ''d'' ''100'' \<notin> ran (files claims200)
      \<and> noradIDQuery claims200 = concat (map (\<lambda>i. i @ '','') (noradIDs claims200))"
    by blast
  from t window_rows3_start claim_loop_world1 have c: "requests (final (FetchTLEsForSATCAT env0 \<lparr>rows = rows3, capacity = 4\<rparr> 0 2 ''d'' world1))
      = requests world1 @ (if noradIDs claims200 = [] then []
                   else [(loginurl env0,
                          queryURL env0 (butlast (concat (map (\<lambda>i. i @ '','') (noradIDs claims200)))))])"
    by blast
  from a a' b c show ?thesis
    by (simp add: claims200_def filename_def world1_def world0_def env0_def queryURL_def)
qed

subsection \<open>A cycle without claims\<close>

text \<open>
  Claim C4. When the claim loop of a cycle ends with no identifier claimed, the cycle
  returns at once: no request is posted and nothing is written; the scheduler goes on
  with the cursor advanced by exactly the batch size, without wrap-around.
\<close>

theorem empty_claim_set_sends_nothing:
  assumes "window cat cur b = Some vs"
    and "claim_loop d vs (no_claims, w) = Inr (c, w1)"
    and "noradIDs c = []"
  shows "FetchTLEsForSATCAT E cat cur b d w = Inr w1
    \<and> requests w1 = requests w \<and> writes w1 = writes w
    \<and> scheduler E cat b d (Suc n) (cur, w) = scheduler E cat b d n (cur + b, w1)
    \<and> sint (cur + b) = sint cur + sint b"
proof -
  note q = claim_loop_query [OF assms(2)]
  from q(2) assms(3) have "noradIDQuery c = []" by simp
  then have f: "FetchTLEsForSATCAT E cat cur b d w = Inr w1"
    by (simp add: Fetch_claim_Inr [OF assms(1,2)])
  from assms(1) have "0 \<le> sint cur \<and> sint cur \<le> sint (cur + b)"
    by (simp add: window_def Let_def split: if_splits)
  then have "sint (cur + b) = sint cur + sint b"
    using sint_add_exact [of cur b] by blast
  with f q(3,4) show ?thesis by simp
qed

theorem empty_claim_set_sends_nothing_witness:
  "FetchTLEsForSATCAT env0 \<lparr>rows = rows3, capacity = 4\<rparr> 0 2 ''d'' world12
     = Inr (world12\<lparr>skipped := [''d/100.tle'', ''d/200.tle'']\<rparr>)
   \<and> requests (world12\<lparr>skipped := [''d/100.tle'', ''d/200.tle'']\<rparr>) = requests world12
   \<and> scheduler env0 \<lparr>rows = rows3, capacity = 4\<rparr> 2 ''d'' (Suc 0) (0, world12)
       = Inr (2, world12\<lparr>skipped := [''d/100.tle'', ''d/200.tle'']\<rparr>)"
proof -
  have 3: "noradIDs no_claims = []" by (simp add: no_claims_def)
  from empty_claim_set_sends_nothing [OF window_rows3_start claim_loop_world12 3, of env0 0] show ?thesis by simp
qed

subsection \<open>The window at the end of the catalog\<close>

text \<open>
  Claim C2, evaluated on the code. The window is the slice expression alone and is not
  clamped to the rows: with three rows and batch size 2 the cycle at cursor 2 panics on
  the bounds when the capacity is 3, and with capacity 4 takes a zero row into the
  window, creates the artifact of the empty identifier and dies parsing it; the cycle
  at cursor 4 panics on the bounds. Whatever the capacity, the window at cursor 2 is
  never the one remaining row, and the window at cursor 4 is never empty. Run from the
  start, the second cycle ends the process.
\<close>

theorem window_not_clamped:
  "FetchTLEsForSATCAT env0 \<lparr>rows = rows3, capacity = 3\<rparr> 2 2 ''d'' world0
     = Inl (PanicWindowBounds, world0)
   \<and> FetchTLEsForSATCAT env0 \<lparr>rows = rows3, capacity = 4\<rparr> 2 2 ''d'' world0
     = Inl (FatalCatalogID, world0\<lparr>contents := [''d/300.tle'' \<mapsto> [], ''d/.tle'' \<mapsto> []],
                                    created := [''d/300.tle'', ''d/.tle'']\<rparr>)
   \<and> FetchTLEsForSATCAT env0 \<lparr>rows = rows3, capacity = 4\<rparr> 4 2 ''d'' world0
     = Inl (PanicWindowBounds, world0)
   \<and> (\<forall>n. window \<lparr>rows = rows3, capacity = n\<rparr> 2 2 \<noteq> Some [row ''300''])
   \<and> (\<forall>n. window \<lparr>rows = rows3, capacity = n\<rparr> 4 2 \<noteq> Some [])
   \<and> scheduler env0 \<lparr>rows = rows3, capacity = 4\<rparr> 2 ''d'' (Suc (Suc 0)) (0, world0)
     = Inl (FatalCatalogID,
         world0\<lparr>contents := [''d/100.tle'' \<mapsto> ''1 00100 a'', ''d/200.tle'' \<mapsto> ''2 00200 b'',
                              ''d/300.tle'' \<mapsto> [], ''d/.tle'' \<mapsto> []],
                created := [''d/100.tle'', ''d/200.tle'', ''d/300.tle'', ''d/.tle''],
                requests := [(''L'',
                  ''R/query/class/tle/NORAD_CAT_ID/100,200/orderby/EPOCH asc/format/tle/metadata/false'')],
                writes := [(''d/100.tle'', ''1 00100 a''), (''d/200.tle'', ''2 00200 b'')]\<rparr>)"
proof (intro conjI allI)
  show "scheduler env0 \<lparr>rows = rows3, capacity = 4\<rparr> 2 ''d'' (Suc (Suc 0)) (0, world0)
     = Inl (FatalCatalogID,
         world0\<lparr>contents := [''d/100.tle'' \<mapsto> ''1 00100 a'', ''d/200.tle'' \<mapsto> ''2 00200 b'',
                              ''d/300.tle'' \<mapsto> [], ''d/.tle'' \<mapsto> []],
                created := [''d/100.tle'', ''d/200.tle'', ''d/300.tle'', ''d/.tle''],
                requests := [(''L'',
                  ''R/query/class/tle/NORAD_CAT_ID/100,200/orderby/EPOCH asc/format/tle/metadata/false'')],
                writes := [(''d/100.tle'', ''1 00100 a''), (''d/200.tle'', ''2 00200 b'')]\<rparr>)"
    by (simp add: cycle_simps go_simps demux_simps rows3_def world0_def env0_def nl_def)
  show "FetchTLEsForSATCAT env0 \<lparr>rows = rows3, capacity = 3\<rparr> 2 2 ''d'' world0
     = Inl (PanicWindowBounds, world0)"
    by (simp add: FetchTLEsForSATCAT_def window_def)
  show "FetchTLEsForSATCAT env0 \<lparr>rows = rows3, capacity = 4\<rparr> 2 2 ''d'' world0
     = Inl (FatalCatalogID, world0\<lparr>contents := [''d/300.tle'' \<mapsto> [], ''d/.tle'' \<mapsto> []],
                                    created := [''d/300.tle'', ''d/.tle'']\<rparr>)"
    by (simp add: cycle_simps go_simps rows3_def world0_def)
  show "FetchTLEsForSATCAT env0 \<lparr>rows = rows3, capacity = 4\<rparr> 4 2 ''d'' world0
     = Inl (PanicWindowBounds, world0)"
    by (simp add: FetchTLEsForSATCAT_def window_def)
  show "window \<lparr>rows = rows3, capacity = n\<rparr> 2 2 \<noteq> Some [row ''300'']" for n
    by (auto simp: window_def backing_def rows3_def)
  show "window \<lparr>rows = rows3, capacity = n\<rparr> 4 2 \<noteq> Some []" for n
    by (auto simp: window_def backing_def rows3_def)
qed

subsection \<open>Fetching a whole catalog\<close>

lemma claim_loop_clean:
  assumes "distinct ids"
    and "\<forall>i\<in>set ids. \<exists>k. Atoi i = Some k"
    and "inj_on Atoi (set ids)"
    and "\<forall>i\<in>set ids. contents w (filename d i) = None"
    and "create_faults w = {}"
    and "map NORADID vs = ids"
  shows "\<exists>c' w'. claim_loop d vs (c, w) = Inr (c', w')
      \<and> noradIDs c' = noradIDs c @ ids
      \<and> noradIDQuery c' = noradIDQuery c @ concat (map (\<lambda>i. i @ '','') ids)
      \<and> (\<forall>i\<in>set ids. files c' (the (Atoi i)) = Some (filename d i))
      \<and> (\<forall>k. k \<notin> (\<lambda>i. the (Atoi i)) ` set ids \<longrightarrow> files c' k = files c k)
      \<and> (\<forall>p. contents w' p = (if p \<in> filename d ` set ids then Some [] else contents w p))
      \<and> created w' = created w @ map (filename d) ids
      \<and> create_faults w' = {} \<and> write_faults w' = write_faults w
      \<and> requests w' = requests w \<and> writes w' = writes w \<and> skipped w' = skipped w"
  using assms
proof (induction vs arbitrary: ids c w)
  case Nil
  then show ?case by simp
next
  case (Cons v vs)
  let ?i = "NORADID v"
  let ?is = "map NORADID vs"
  from Cons.prems(6) have ids: "ids = ?i # ?is" by auto
  from Cons.prems(2) ids obtain k where k: "Atoi ?i = Some k" by auto
  from Cons.prems(4) ids have none: "contents w (filename d ?i) = None" by simp
  let ?c1 = "c\<lparr>noradIDQuery := noradIDQuery c @ ?i @ '','',
                   noradIDs := noradIDs c @ [?i],
                   files := (files c)(k \<mapsto> filename d ?i)\<rparr>"
  let ?w1 = "w\<lparr>contents := (contents w)(filename d ?i \<mapsto> []),
                   created := created w @ [filename d ?i]\<rparr>"
  from none Cons.prems(5) k have step: "claim_step d v (c, w) = Inr (?c1, ?w1)"
    by (simp add: claim_step_created)
  from Cons.prems(1) ids have d1: "distinct ?is" and notin: "?i \<notin> set ?is" by simp_all
  from Cons.prems(2) ids have a1: "\<forall>i\<in>set ?is. \<exists>k. Atoi i = Some k" by simp
  from Cons.prems(3) ids have i1: "inj_on Atoi (set ?is)" by (simp add: inj_on_def)
  have n1: "\<forall>i\<in>set ?is. contents ?w1 (filename d i) = None"
  proof
    fix i assume i: "i \<in> set ?is"
    with notin have "i \<noteq> ?i" by blast
    moreover from i Cons.prems(4) ids have "contents w (filename d i) = None" by auto
    ultimately show "contents ?w1 (filename d i) = None" by (simp add: filename_inj)
  qed
  from Cons.prems(5) have f1: "create_faults ?w1 = {}" by simp
  from Cons.IH [OF d1 a1 i1 n1 f1 refl, of ?c1] obtain c' w' where
    r: "claim_loop d vs (?c1, ?w1) = Inr (c', w')"
    and r1: "noradIDs c' = noradIDs ?c1 @ ?is"
    and r2: "noradIDQuery c' = noradIDQuery ?c1 @ concat (map (\<lambda>i. i @ '','') ?is)"
    and r3: "\<forall>i\<in>set ?is. files c' (the (Atoi i)) = Some (filename d i)"
    and r4: "\<forall>k. k \<notin> (\<lambda>i. the (Atoi i)) ` set ?is \<longrightarrow> files c' k = files ?c1 k"
    and r5: "\<forall>p. contents w' p = (if p \<in> filename d ` set ?is then Some [] else contents ?w1 p)"
    and r6: "created w' = created ?w1 @ map (filename d) ?is"
    and r7: "create_faults w' = {}" "write_faults w' = write_faults ?w1"
      "requests w' = requests ?w1" "writes w' = writes ?w1" "skipped w' = skipped ?w1"
    by blast
  have knotin: "k \<notin> (\<lambda>i. the (Atoi i)) ` set ?is"
  proof
    assume "k \<in> (\<lambda>i. the (Atoi i)) ` set ?is"
    then obtain i where i: "i \<in> set ?is" "k = the (Atoi i)" by auto
    with a1 have "Atoi i = Some k" by auto
    with k Cons.prems(3) ids i(1) have "i = ?i" by (auto simp: inj_on_def)
    with i(1) notin show False by simp
  qed
  have "claim_loop d (v # vs) (c, w) = Inr (c', w')" using step r by simp
  moreover have "noradIDs c' = noradIDs c @ ids" using r1 ids by simp
  moreover have "noradIDQuery c' = noradIDQuery c @ concat (map (\<lambda>i. i @ '','') ids)"
    using r2 ids by simp
  moreover have "\<forall>i\<in>set ids. files c' (the (Atoi i)) = Some (filename d i)"
    using r3 r4 knotin k ids by simp
  moreover have "\<forall>k'. k' \<notin> (\<lambda>i. the (Atoi i)) ` set ids \<longrightarrow> files c' k' = files c k'"
    using r4 k ids by simp
  moreover have "\<forall>p. contents w' p = (if p \<in> filename d ` set ids then Some [] else contents w p)"
    using r5 ids by auto
  moreover have "created w' = created w @ map (filename d) ids" using r6 ids by simp
  moreover have "create_faults w' = {} \<and> write_faults w' = write_faults w
      \<and> requests w' = requests w \<and> writes w' = writes w \<and> skipped w' = skipped w"
    using r7 by simp
  ultimately show ?case by blast
qed

lemma routed_to:
  "map snd (filter (\<lambda>fs. fst fs = p) (routed fm ls)) = filter (\<lambda>l. sink_of fm l = Some p) ls"
  by (induction ls) (auto simp: routed_def split: option.splits)

lemma demux_step_other:
  "p \<notin> ran fm \<Longrightarrow> contents (final (demux_step fm l w)) p = contents w p"
  by (auto simp: demux_step_def WriteString_def final_def ran_def
      split: sum.splits option.splits)

lemma demux_loop_other:
  "p \<notin> ran fm \<Longrightarrow> contents (final (demux_loop fm ls w)) p = contents w p"
proof (induction ls arbitrary: w)
  case Nil
  then show ?case by (simp add: final_def)
next
  case (Cons l ls)
  show ?case
  proof (cases "demux_step fm l w")
    case (Inl a)
    with demux_step_other [OF Cons.prems, of l w] show ?thesis
      by (simp add: demux_loop_Cons_final)
  next
    case (Inr w1)
    then have "final (demux_step fm l w) = w1" by (simp add: final_def)
    with demux_step_other [OF Cons.prems, of l w] Cons.IH [OF Cons.prems, of w1] Inr
    show ?thesis by (simp add: demux_loop_Cons_final)
  qed
qed

lemma contents_bytes:
  assumes "contents w p \<noteq> None"
    and "dom (contents w) \<subseteq> dom (contents w')"
  shows "contents w' p = Some (file_bytes w' p)"
proof -
  from assms have "p \<in> dom (contents w')" by blast
  then show ?thesis by (auto simp: file_bytes_def)
qed

lemma cycle_clean:
  assumes win: "window cat s n = Some vs" and ne: "vs \<noteq> []"
    and dist: "distinct (map NORADID vs)"
    and atoi: "\<forall>i\<in>set (map NORADID vs). \<exists>k. Atoi i = Some k"
    and inj: "inj_on Atoi (set (map NORADID vs))"
    and fresh: "\<forall>i\<in>set (map NORADID vs). contents w (filename d i) = None"
    and nf: "create_faults w = {}" "write_faults w = {}"
    and resp: "remote E (loginurl E) (batch_request E (map NORADID vs)) = Some resp"
    and ok: "\<forall>l\<in>set (butlast (Split_newline resp)). \<exists>k. lineID l = Inr k"
  shows "\<exists>w'. FetchTLEsForSATCAT E cat s n d w = Inr w'
      \<and> created w' = created w @ map (filename d) (map NORADID vs)
      \<and> requests w' = requests w @ [(loginurl E, batch_request E (map NORADID vs))]
      \<and> create_faults w' = {} \<and> write_faults w' = {}
      \<and> (\<forall>p. p \<notin> filename d ` set (map NORADID vs) \<longrightarrow> contents w' p = contents w p)
      \<and> (\<forall>i\<in>set (map NORADID vs). contents w' (filename d i) =
            Some (concat (filter (\<lambda>l. lineID l = Inr (the (Atoi i)))
              (butlast (Split_newline resp)))))
      \<and> (\<forall>p. p \<notin> filename d ` set (map NORADID vs) \<longrightarrow> written_to w' p = written_to w p)
      \<and> (\<forall>i\<in>set (map NORADID vs). written_to w' (filename d i) =
            written_to w (filename d i) @ filter (\<lambda>l. lineID l = Inr (the (Atoi i)))
              (butlast (Split_newline resp)))"
proof -
  let ?ids = "map NORADID vs"
  let ?ls = "butlast (Split_newline resp)"
  from claim_loop_clean [OF dist atoi inj fresh nf(1) refl, of no_claims]
  obtain c w1 where cl: "claim_loop d vs (no_claims, w) = Inr (c, w1)"
    and c1: "noradIDs c = ?ids"
    and c2: "noradIDQuery c = concat (map (\<lambda>i. i @ '','') ?ids)"
    and c3: "\<forall>i\<in>set ?ids. files c (the (Atoi i)) = Some (filename d i)"
    and c4: "\<forall>k. k \<notin> (\<lambda>i. the (Atoi i)) ` set ?ids \<longrightarrow> files c k = None"
    and w1: "\<forall>p. contents w1 p = (if p \<in> filename d ` set ?ids then Some [] else contents w p)"
    and w2: "created w1 = created w @ map (filename d) ?ids"
    and w3: "create_faults w1 = {}" "write_faults w1 = write_faults w"
      "requests w1 = requests w" "writes w1 = writes w"
    by (auto simp: no_claims_def)
  from ne c2 have qne: "noradIDQuery c \<noteq> []" by (cases vs) simp_all
  let ?r = "(loginurl E, batch_request E ?ids)"
  let ?w2 = "w1\<lparr>requests := requests w1 @ [?r]\<rparr>"
  have fetch: "FetchTLEsForSATCAT E cat s n d w = demux (files c) resp ?w2"
    using qne resp by (simp add: Fetch_claim_Inr [OF win cl] c2 batch_request_def)
  have sink: "sink_of (files c) l = Some (filename d i) \<longleftrightarrow> lineID l = Inr (the (Atoi i))"
    if i: "i \<in> set ?ids" and l: "l \<in> set ?ls" for i l
  proof -
    from ok l obtain k where k: "lineID l = Inr k" by blast
    show ?thesis
    proof (cases "k \<in> (\<lambda>i. the (Atoi i)) ` set ?ids")
      case True
      then obtain i' where i': "i' \<in> set ?ids" "k = the (Atoi i')" by (rule imageE)
      from bspec [OF c3 i'(1)] i'(2) have f: "files c k = Some (filename d i')" by simp
      from bspec [OF atoi i] have ai: "Atoi i = Some (the (Atoi i))" by auto
      from bspec [OF atoi i'(1)] i'(2) have ai': "Atoi i' = Some k" by auto
      have "the (Atoi i) = k \<longleftrightarrow> i = i'"
      proof
        assume "the (Atoi i) = k"
        with ai ai' have "Atoi i = Atoi i'" by simp
        from inj_onD [OF inj this i i'(1)] show "i = i'" .
      next
        assume "i = i'"
        with ai' show "the (Atoi i) = k" by simp
      qed
      then have "filename d i' = filename d i \<longleftrightarrow> k = the (Atoi i)"
        by (auto simp: filename_inj)
      with k f show ?thesis by (simp add: sink_of_def)
    next
      case False
      with spec [OF c4, of k] have "files c k = None" by (rule mp)
      moreover from False i have "k \<noteq> the (Atoi i)" by (metis image_eqI)
      ultimately show ?thesis using k by (simp add: sink_of_def)
    qed
  qed
  have ran: "ran (files c) \<subseteq> filename d ` set ?ids"
  proof
    fix p assume "p \<in> ran (files c)"
    then obtain k where k: "files c k = Some p" by (auto simp: ran_def)
    have "k \<in> (\<lambda>i. the (Atoi i)) ` set ?ids"
    proof (rule ccontr)
      assume "k \<notin> (\<lambda>i. the (Atoi i)) ` set ?ids"
      with spec [OF c4, of k] have "files c k = None" by (rule mp)
      with k show False by simp
    qed
    then obtain i where i: "i \<in> set ?ids" "k = the (Atoi i)" by (rule imageE)
    from bspec [OF c3 i(1)] i(2) have "files c k = Some (filename d i)" by simp
    with k have "p = filename d i" by simp
    from this i(1) show "p \<in> filename d ` set ?ids" by (rule image_eqI)
  qed
  have allok: "list_all (line_ok (files c) (write_faults ?w2)) ?ls"
    using ok w3(2) nf(2) by (auto simp: list_all_iff line_ok_def split: option.splits)
  then obtain w' where dm: "demux_loop (files c) ?ls ?w2 = Inr w'"
    using demux_loop_Inr [of "files c" ?ls ?w2] by blast
  then have fin: "final (demux_loop (files c) ?ls ?w2) = w'" by (simp add: final_def)
  from allok have tw: "takeWhile (line_ok (files c) (write_faults ?w2)) ?ls = ?ls"
    by (simp add: list_all_iff)
  note fr = demux_loop_frame [of "files c" ?ls ?w2, unfolded fin]
  have other: "contents w' p = contents w p" if "p \<notin> filename d ` set ?ids" for p
  proof -
    from that ran have "p \<notin> ran (files c)" by blast
    from demux_loop_other [OF this, of ?ls ?w2] fin w1 that show ?thesis by simp
  qed
  have mine: "contents w' (filename d i) =
      Some (concat (filter (\<lambda>l. lineID l = Inr (the (Atoi i))) ?ls))"
    if i: "i \<in> set ?ids" for i
  proof -
    from i have "filename d i \<in> filename d ` set ?ids" by blast
    with w1 have e: "contents ?w2 (filename d i) = Some []" by simp
    then have "contents ?w2 (filename d i) \<noteq> None" by simp
    from contents_bytes [OF this] fr
    have "contents w' (filename d i) = Some (file_bytes w' (filename d i))" by blast
    moreover have "file_bytes w' (filename d i) =
        file_bytes ?w2 (filename d i) @ concat (filter (\<lambda>l. sink_of (files c) l = Some (filename d i)) ?ls)"
      using demux_loop_bytes [of "files c" ?ls ?w2 "filename d i"] by (simp only: fin tw)
    moreover have "file_bytes ?w2 (filename d i) = []"
      using e by (simp add: file_bytes_def)
    moreover have "filter (\<lambda>l. sink_of (files c) l = Some (filename d i)) ?ls
        = filter (\<lambda>l. lineID l = Inr (the (Atoi i))) ?ls"
      using sink [OF i] by (intro filter_cong) auto
    ultimately show ?thesis by simp
  qed
  have wr: "written_to w' p = written_to w p @ filter (\<lambda>l. sink_of (files c) l = Some p) ?ls" for p
  proof -
    have "writes w' = writes w @ routed (files c) ?ls"
      using demux_loop_writes [of "files c" ?ls ?w2] w3(4) by (simp only: fin tw) simp
    then show ?thesis by (simp add: written_to_def routed_to)
  qed
  have wother: "written_to w' p = written_to w p" if "p \<notin> filename d ` set ?ids" for p
  proof -
    from that ran have nr: "p \<notin> ran (files c)" by blast
    have "filter (\<lambda>l. sink_of (files c) l = Some p) ?ls = []"
    proof (rule filter_False, rule ballI)
      fix l assume "l \<in> set ?ls"
      show "\<not> sink_of (files c) l = Some p"
      proof
        assume "sink_of (files c) l = Some p"
        then have "p \<in> ran (files c)"
          by (auto simp: sink_of_def ran_def split: sum.splits)
        with nr show False by simp
      qed
    qed
    with wr [of p] show ?thesis by simp
  qed
  have wmine: "written_to w' (filename d i) =
      written_to w (filename d i) @ filter (\<lambda>l. lineID l = Inr (the (Atoi i))) ?ls"
    if i: "i \<in> set ?ids" for i
  proof -
    have "filter (\<lambda>l. sink_of (files c) l = Some (filename d i)) ?ls
        = filter (\<lambda>l. lineID l = Inr (the (Atoi i))) ?ls"
      using sink [OF i] by (intro filter_cong) auto
    with wr [of "filename d i"] show ?thesis by simp
  qed
  from fr w2 w3 nf have "created w' = created w @ map (filename d) ?ids"
    "requests w' = requests w @ [?r]" "create_faults w' = {}" "write_faults w' = {}"
    by simp_all
  with fetch dm other mine wother wmine show ?thesis
    by (simp add: demux_def)
qed

lemma sint_of_nat_64:
  assumes "n < 2 ^ 63"
  shows "sint (of_nat n :: 64 word) = int n"
proof -
  from assms have "int n < 2 ^ 63"
    by (metis of_nat_less_iff of_nat_numeral of_nat_power)
  moreover have "- (2 ^ 63) \<le> int n" by simp
  ultimately have "signed_take_bit 63 (int n) = int n"
    by (intro signed_take_bit_int_eq_self) simp_all
  then show ?thesis by (simp add: signed_of_nat)
qed

lemma window_in_rows:
  assumes "s + b \<le> length (rows cat)" and "length (rows cat) \<le> capacity cat"
    and "length (rows cat) < 2 ^ 63"
  shows "window cat (of_nat s) (of_nat b) = Some (take b (drop s (rows cat)))"
proof -
  from assms have sb: "s + b < 2 ^ 63" and s: "s < 2 ^ 63" by simp_all
  have h: "(of_nat s :: 64 word) + of_nat b = of_nat (s + b)" by simp
  have 1: "sint (of_nat s :: 64 word) = int s" using s by (rule sint_of_nat_64)
  have 2: "sint (of_nat (s + b) :: 64 word) = int (s + b)" using sb by (rule sint_of_nat_64)
  have 3: "take b (drop s (backing cat)) = take b (drop s (rows cat))"
    using assms(1) by (simp add: backing_def)
  have 4: "nat (int (s + b)) - nat (int s) = b" by simp
  from assms(1,2) show ?thesis
    unfolding window_def Let_def h 1 2 4 by (simp add: 3)
qed

lemma scheduler_clean:
  assumes b: "0 < b" and cap: "length (rows cat) \<le> capacity cat"
    and small: "length (rows cat) < 2 ^ 63"
    and len: "length (rows cat) = m * b"
    and dist: "distinct (map NORADID (rows cat))"
    and atoi: "\<forall>i\<in>set (map NORADID (rows cat)). \<exists>k. Atoi i = Some k"
    and inj: "inj_on Atoi (set (map NORADID (rows cat)))"
    and resp: "\<forall>j<m. \<exists>resp. remote E (loginurl E) (batch_request E (batch cat b j)) = Some resp
        \<and> (\<forall>l\<in>set (butlast (Split_newline resp)). \<exists>k. lineID l = Inr k)"
  shows "j + n = m \<Longrightarrow> create_faults w = {} \<Longrightarrow> write_faults w = {}
    \<Longrightarrow> \<forall>i\<in>set (map NORADID (drop (j * b) (rows cat))). contents w (filename d i) = None
    \<Longrightarrow> \<exists>w'. scheduler E cat (of_nat b) d n (of_nat (j * b), w) = Inr (of_nat (m * b), w')
        \<and> created w' = created w @ map (filename d) (map NORADID (drop (j * b) (rows cat)))
        \<and> requests w' = requests w
             @ map (\<lambda>j. (loginurl E, batch_request E (batch cat b j))) [j..<m]
        \<and> (\<forall>p. p \<notin> filename d ` set (map NORADID (drop (j * b) (rows cat)))
              \<longrightarrow> contents w' p = contents w p)
        \<and> (\<forall>j'. j \<le> j' \<and> j' < m \<longrightarrow> (\<forall>i\<in>set (batch cat b j').
              contents w' (filename d i) =
                Some (concat (filter (\<lambda>l. lineID l = Inr (the (Atoi i)))
                  (batch_lines E (batch cat b j'))))))
        \<and> (\<forall>p. p \<notin> filename d ` set (map NORADID (drop (j * b) (rows cat)))
              \<longrightarrow> written_to w' p = written_to w p)
        \<and> (\<forall>j'. j \<le> j' \<and> j' < m \<longrightarrow> (\<forall>i\<in>set (batch cat b j').
              written_to w' (filename d i) =
                written_to w (filename d i) @ filter (\<lambda>l. lineID l = Inr (the (Atoi i)))
                  (batch_lines E (batch cat b j'))))"
proof (induction n arbitrary: j w)
  case 0
  then have "j = m" by simp
  with len show ?case by auto
next
  case (Suc n)
  let ?R = "drop (j * b) (rows cat)"
  let ?vs = "take b ?R"
  let ?A = "map NORADID ?vs"
  let ?B = "map NORADID (drop (Suc j * b) (rows cat))"
  from Suc.prems(1) have jm: "j < m" by simp
  then have "Suc j \<le> m" by simp
  then have "Suc j * b \<le> m * b" by (rule mult_le_mono1)
  then have le: "j * b + b \<le> length (rows cat)" by (simp add: len)
  have dr: "drop (Suc j * b) (rows cat) = drop b ?R" by (simp add: add.commute)
  have split: "map NORADID ?R = ?A @ ?B"
  proof -
    have "map NORADID (take b ?R @ drop b ?R) = ?A @ map NORADID (drop b ?R)"
      by (rule map_append)
    then show ?thesis by (simp only: append_take_drop_id dr)
  qed
  from distinct_drop [OF dist, of "j * b"] have "distinct (map NORADID ?R)"
    by (simp only: drop_map)
  then have dAB: "distinct (?A @ ?B)" by (simp only: split)
  then have dA: "distinct ?A" and disj: "set ?A \<inter> set ?B = {}" by simp_all
  have subR: "set (map NORADID ?R) \<subseteq> set (map NORADID (rows cat))"
    by (simp add: image_mono set_drop_subset)
  have subA: "set ?A \<subseteq> set (map NORADID ?R)" by (simp add: split)
  have subB: "set ?B \<subseteq> set (map NORADID ?R)" by (simp add: split)
  from b le have ne: "?vs \<noteq> []" by auto
  have win: "window cat (of_nat (j * b)) (of_nat b) = Some ?vs"
    using le cap small by (rule window_in_rows)
  from atoi subR subA have atoiA: "\<forall>i\<in>set ?A. \<exists>k. Atoi i = Some k" by blast
  from inj subR subA have injA: "inj_on Atoi (set ?A)"
    by (meson inj_on_subset subset_trans)
  from Suc.prems(4) subA have freshA: "\<forall>i\<in>set ?A. contents w (filename d i) = None" by blast
  have bj: "batch cat b j = ?A" by (simp add: batch_def)
  from resp jm obtain r where r: "remote E (loginurl E) (batch_request E ?A) = Some r"
    and rok: "\<forall>l\<in>set (butlast (Split_newline r)). \<exists>k. lineID l = Inr k"
    unfolding bj [symmetric] by blast
  from cycle_clean [OF win ne dA atoiA injA freshA Suc.prems(2,3) r rok]
  obtain w1 where f: "FetchTLEsForSATCAT E cat (of_nat (j * b)) (of_nat b) d w = Inr w1"
    and cr1: "created w1 = created w @ map (filename d) ?A"
    and rq1: "requests w1 = requests w @ [(loginurl E, batch_request E ?A)]"
    and nf1: "create_faults w1 = {}" "write_faults w1 = {}"
    and ot1: "\<forall>p. p \<notin> filename d ` set ?A \<longrightarrow> contents w1 p = contents w p"
    and my1: "\<forall>i\<in>set ?A. contents w1 (filename d i) =
            Some (concat (filter (\<lambda>l. lineID l = Inr (the (Atoi i))) (butlast (Split_newline r))))"
    and wo1: "\<forall>p. p \<notin> filename d ` set ?A \<longrightarrow> written_to w1 p = written_to w p"
    and wm1: "\<forall>i\<in>set ?A. written_to w1 (filename d i) =
            written_to w (filename d i) @ filter (\<lambda>l. lineID l = Inr (the (Atoi i)))
              (butlast (Split_newline r))"
    by blast
  have notA: "filename d i \<notin> filename d ` set ?A" if "i \<in> set ?B" for i
  proof
    assume "filename d i \<in> filename d ` set ?A"
    then obtain i' where eq: "filename d i = filename d i'" and i': "i' \<in> set ?A"
      by (rule imageE)
    from eq have "i = i'" by (simp only: filename_inj)
    with i' that disj show False by blast
  qed
  have notB: "filename d i \<notin> filename d ` set ?B" if "i \<in> set ?A" for i
  proof
    assume "filename d i \<in> filename d ` set ?B"
    then obtain i' where eq: "filename d i = filename d i'" and i': "i' \<in> set ?B"
      by (rule imageE)
    from eq have "i = i'" by (simp only: filename_inj)
    with i' that disj show False by blast
  qed
  have fresh1: "\<forall>i\<in>set ?B. contents w1 (filename d i) = None"
  proof
    fix i assume i: "i \<in> set ?B"
    with subB have "i \<in> set (map NORADID ?R)" by blast
    with Suc.prems(4) have "contents w (filename d i) = None" by blast
    with ot1 notA [OF i] show "contents w1 (filename d i) = None" by simp
  qed
  from Suc.prems(1) have sj: "Suc j + n = m" by simp
  from Suc.IH [OF sj nf1 fresh1]
  obtain w' where s': "scheduler E cat (of_nat b) d n (of_nat (Suc j * b), w1) = Inr (of_nat (m * b), w')"
    and cr': "created w' = created w1 @ map (filename d) ?B"
    and rq': "requests w' = requests w1
             @ map (\<lambda>j. (loginurl E, batch_request E (batch cat b j))) [Suc j..<m]"
    and ot': "\<forall>p. p \<notin> filename d ` set ?B \<longrightarrow> contents w' p = contents w1 p"
    and my': "\<forall>j'. Suc j \<le> j' \<and> j' < m \<longrightarrow> (\<forall>i\<in>set (batch cat b j').
              contents w' (filename d i) =
                Some (concat (filter (\<lambda>l. lineID l = Inr (the (Atoi i)))
                  (batch_lines E (batch cat b j')))))"
    and wo': "\<forall>p. p \<notin> filename d ` set ?B \<longrightarrow> written_to w' p = written_to w1 p"
    and wm': "\<forall>j'. Suc j \<le> j' \<and> j' < m \<longrightarrow> (\<forall>i\<in>set (batch cat b j').
              written_to w' (filename d i) =
                written_to w1 (filename d i) @ filter (\<lambda>l. lineID l = Inr (the (Atoi i)))
                  (batch_lines E (batch cat b j')))"
    by blast
  have cur: "(of_nat (j * b) :: 64 word) + of_nat b = of_nat (Suc j * b)"
    by (simp add: add.commute)
  have "scheduler E cat (of_nat b) d (Suc n) (of_nat (j * b), w)
      = scheduler E cat (of_nat b) d n (of_nat (j * b) + of_nat b, w1)"
    by (simp only: scheduler.simps fst_conv snd_conv f sum.case)
  then have 1: "scheduler E cat (of_nat b) d (Suc n) (of_nat (j * b), w) = Inr (of_nat (m * b), w')"
    by (simp only: cur s')
  have 2: "created w' = created w @ map (filename d) (map NORADID ?R)"
    using cr' cr1 by (simp only: split map_append append_assoc)
  have 3: "requests w' = requests w
             @ map (\<lambda>j. (loginurl E, batch_request E (batch cat b j))) [j..<m]"
    using rq' rq1 jm by (simp add: upt_conv_Cons bj)
  have 4: "\<forall>p. p \<notin> filename d ` set (map NORADID ?R) \<longrightarrow> contents w' p = contents w p"
  proof (intro allI impI)
    fix p assume "p \<notin> filename d ` set (map NORADID ?R)"
    then have "p \<notin> filename d ` set ?A" "p \<notin> filename d ` set ?B"
      by (simp_all only: split set_append image_Un Un_iff not_False_eq_True de_Morgan_disj)
    with ot' ot1 show "contents w' p = contents w p" by simp
  qed
  have 5: "\<forall>j'. j \<le> j' \<and> j' < m \<longrightarrow> (\<forall>i\<in>set (batch cat b j').
              contents w' (filename d i) =
                Some (concat (filter (\<lambda>l. lineID l = Inr (the (Atoi i)))
                  (batch_lines E (batch cat b j')))))"
  proof (intro allI impI ballI)
    fix j' i assume j': "j \<le> j' \<and> j' < m" and i: "i \<in> set (batch cat b j')"
    show "contents w' (filename d i) =
                Some (concat (filter (\<lambda>l. lineID l = Inr (the (Atoi i)))
                  (batch_lines E (batch cat b j'))))"
    proof (cases "j' = j")
      case True
      with i bj have iA: "i \<in> set ?A" by simp
      from r have bl: "batch_lines E (batch cat b j) = butlast (Split_newline r)"
        by (simp add: batch_lines_def bj)
      from ot' notB [OF iA] have "contents w' (filename d i) = contents w1 (filename d i)"
        by simp
      also from bspec [OF my1 iA] have "\<dots> = Some (concat (filter (\<lambda>l. lineID l = Inr (the (Atoi i)))
          (butlast (Split_newline r))))" .
      finally show ?thesis by (simp only: True bl)
    next
      case False
      with j' have "Suc j \<le> j' \<and> j' < m" by simp
      with my' i show ?thesis by blast
    qed
  qed
  have 6: "\<forall>p. p \<notin> filename d ` set (map NORADID ?R) \<longrightarrow> written_to w' p = written_to w p"
  proof (intro allI impI)
    fix p assume "p \<notin> filename d ` set (map NORADID ?R)"
    then have "p \<notin> filename d ` set ?A" "p \<notin> filename d ` set ?B"
      by (simp_all only: split set_append image_Un Un_iff not_False_eq_True de_Morgan_disj)
    with wo' wo1 show "written_to w' p = written_to w p" by simp
  qed
  have 7: "\<forall>j'. j \<le> j' \<and> j' < m \<longrightarrow> (\<forall>i\<in>set (batch cat b j').
              written_to w' (filename d i) =
                written_to w (filename d i) @ filter (\<lambda>l. lineID l = Inr (the (Atoi i)))
                  (batch_lines E (batch cat b j')))"
  proof (intro allI impI ballI)
    fix j' i assume j': "j \<le> j' \<and> j' < m" and i: "i \<in> set (batch cat b j')"
    show "written_to w' (filename d i) =
                written_to w (filename d i) @ filter (\<lambda>l. lineID l = Inr (the (Atoi i)))
                  (batch_lines E (batch cat b j'))"
    proof (cases "j' = j")
      case True
      with i bj have iA: "i \<in> set ?A" by simp
      from r have bl: "batch_lines E (batch cat b j) = butlast (Split_newline r)"
        by (simp add: batch_lines_def bj)
      from wo' notB [OF iA] have "written_to w' (filename d i) = written_to w1 (filename d i)"
        by simp
      also from bspec [OF wm1 iA] have "\<dots> = written_to w (filename d i)
          @ filter (\<lambda>l. lineID l = Inr (the (Atoi i))) (butlast (Split_newline r))" .
      finally show ?thesis by (simp only: True bl)
    next
      case False
      with j' have sj': "Suc j \<le> j' \<and> j' < m" by simp
      then have "Suc j \<le> j'" by simp
      then have "Suc j * b \<le> j' * b" by (rule mult_le_mono1)
      then have "set (drop (j' * b) (rows cat)) \<subseteq> set (drop (Suc j * b) (rows cat))"
        by (rule set_drop_subset_set_drop)
      moreover have "set (take b (drop (j' * b) (rows cat))) \<subseteq> set (drop (j' * b) (rows cat))"
        by (rule set_take_subset)
      ultimately have "NORADID ` set (take b (drop (j' * b) (rows cat)))
          \<subseteq> NORADID ` set (drop (Suc j * b) (rows cat))"
        by blast
      with i have iB: "i \<in> set ?B" by (auto simp: batch_def)
      from wo1 notA [OF iB] have "written_to w1 (filename d i) = written_to w (filename d i)"
        by simp
      moreover from wm' sj' i have "written_to w' (filename d i) =
                written_to w1 (filename d i) @ filter (\<lambda>l. lineID l = Inr (the (Atoi i)))
                  (batch_lines E (batch cat b j'))"
        by blast
      ultimately show ?thesis by simp
    qed
  qed
  from 1 2 3 4 5 6 7 show ?case by blast
qed

subsection \<open>The run over a catalog of whole batches\<close>

text \<open>
  Claim C8, as the code has it. Let the batch size \<open>b > 0\<close> divide the number of rows
  \<open>m * b\<close>, the identifiers be distinct, parse as distinct integers and have no artifact
  yet, nothing of the environment fail, and every non-trailing line of every answer carry
  a parseable identifier. Then \<open>m\<close> cycles from cursor 0 return with the cursor at
  \<open>m * b\<close>; one artifact was created for every identifier of the catalog, each once, in
  catalog order; one request was posted per window; no other file was touched; and the
  lines written to an artifact are exactly the non-trailing lines of the answer to its
  own window whose identifier is its own, in the order of the answer: the artifact holds
  them concatenated, with nothing between them.
\<close>

theorem whole_catalog_fetched:
  assumes "0 < b" and "length (rows cat) = m * b"
    and "length (rows cat) \<le> capacity cat" and "length (rows cat) < 2 ^ 63"
    and "distinct (map NORADID (rows cat))"
    and "\<forall>i\<in>set (map NORADID (rows cat)). \<exists>k. Atoi i = Some k"
    and "inj_on Atoi (set (map NORADID (rows cat)))"
    and "\<forall>i\<in>set (map NORADID (rows cat)). contents w (filename d i) = None"
    and "create_faults w = {}" and "write_faults w = {}"
    and "\<forall>j<m. \<exists>resp. remote E (loginurl E) (batch_request E (batch cat b j)) = Some resp
        \<and> (\<forall>l\<in>set (butlast (Split_newline resp)). \<exists>k. lineID l = Inr k)"
  shows "\<exists>w'. scheduler E cat (of_nat b) d m (0, w) = Inr (of_nat (m * b), w')
        \<and> created w' = created w @ map (filename d) (map NORADID (rows cat))
        \<and> distinct (map (filename d) (map NORADID (rows cat)))
        \<and> requests w' = requests w
             @ map (\<lambda>j. (loginurl E, batch_request E (batch cat b j))) [0..<m]
        \<and> (\<forall>p. p \<notin> filename d ` set (map NORADID (rows cat))
              \<longrightarrow> contents w' p = contents w p \<and> written_to w' p = written_to w p)
        \<and> (\<forall>j<m. \<forall>i\<in>set (batch cat b j).
              contents w' (filename d i) =
                Some (concat (filter (\<lambda>l. lineID l = Inr (the (Atoi i)))
                  (batch_lines E (batch cat b j))))
              \<and> written_to w' (filename d i) =
                written_to w (filename d i) @ filter (\<lambda>l. lineID l = Inr (the (Atoi i)))
                  (batch_lines E (batch cat b j)))"
proof -
  have fresh: "\<forall>i\<in>set (map NORADID (drop (0 * b) (rows cat))). contents w (filename d i) = None"
    using assms(8) by simp
  have "0 + m = m" by simp
  from scheduler_clean [OF assms(1,3,4,2,5,6,7,11) this assms(9,10) fresh]
  obtain w' where r: "scheduler E cat (of_nat b) d m (of_nat (0 * b), w) = Inr (of_nat (m * b), w')"
    "created w' = created w @ map (filename d) (map NORADID (drop (0 * b) (rows cat)))"
    "requests w' = requests w
             @ map (\<lambda>j. (loginurl E, batch_request E (batch cat b j))) [0..<m]"
    "\<forall>p. p \<notin> filename d ` set (map NORADID (drop (0 * b) (rows cat)))
              \<longrightarrow> contents w' p = contents w p"
    "\<forall>j'. 0 \<le> j' \<and> j' < m \<longrightarrow> (\<forall>i\<in>set (batch cat b j').
              contents w' (filename d i) =
                Some (concat (filter (\<lambda>l. lineID l = Inr (the (Atoi i)))
                  (batch_lines E (batch cat b j')))))"
    "\<forall>p. p \<notin> filename d ` set (map NORADID (drop (0 * b) (rows cat)))
              \<longrightarrow> written_to w' p = written_to w p"
    "\<forall>j'. 0 \<le> j' \<and> j' < m \<longrightarrow> (\<forall>i\<in>set (batch cat b j').
              written_to w' (filename d i) =
                written_to w (filename d i) @ filter (\<lambda>l. lineID l = Inr (the (Atoi i)))
                  (batch_lines E (batch cat b j')))"
    by (elim exE conjE) (rule that)
  have di: "distinct (map (filename d) (map NORADID (rows cat)))"
    using assms(5) by (simp add: distinct_map inj_on_def filename_inj)
  from r(1) have 1: "scheduler E cat (of_nat b) d m (0, w) = Inr (of_nat (m * b), w')" by simp
  from r(2) have 2: "created w' = created w @ map (filename d) (map NORADID (rows cat))" by simp
  from r(4,6) have 4: "\<forall>p. p \<notin> filename d ` set (map NORADID (rows cat))
              \<longrightarrow> contents w' p = contents w p \<and> written_to w' p = written_to w p"
    by simp
  from r(5,7) have 5: "\<forall>j<m. \<forall>i\<in>set (batch cat b j).
              contents w' (filename d i) =
                Some (concat (filter (\<lambda>l. lineID l = Inr (the (Atoi i)))
                  (batch_lines E (batch cat b j))))
              \<and> written_to w' (filename d i) =
                written_to w (filename d i) @ filter (\<lambda>l. lineID l = Inr (the (Atoi i)))
                  (batch_lines E (batch cat b j))"
    by simp
  from 1 2 di r(3) 4 5 show ?thesis by blast
qed

theorem whole_catalog_fetched_witness:
  "\<exists>w'. scheduler env0 \<lparr>rows = rows2, capacity = 2\<rparr> 1 ''d'' 2 (0, world0) = Inr (2, w')
     \<and> created w' = [''d/100.tle'', ''d/200.tle'']
     \<and> contents w' ''d/100.tle'' = Some ''1 00100 a''
     \<and> contents w' ''d/200.tle'' = Some ''2 00200 b''
     \<and> written_to w' ''d/100.tle'' = [''1 00100 a'']"
proof -
  let ?cat = "\<lparr>rows = rows2, capacity = 2\<rparr>"
  have h1: "0 < (1::nat)" by simp
  have h2: "length (rows ?cat) = 2 * 1" by (simp add: rows2_def)
  have h3: "length (rows ?cat) \<le> capacity ?cat" by (simp add: rows2_def)
  have h4: "length (rows ?cat) < 2 ^ 63" by (simp add: rows2_def)
  have ids: "map NORADID (rows ?cat) = [''100'', ''200'']"
    by (simp add: rows2_def row_def zero_row_def)
  have a: "Atoi ''100'' = Some 100" "Atoi ''200'' = Some 200" by (simp_all add: go_simps)
  have h5: "distinct (map NORADID (rows ?cat))" unfolding ids by simp
  have h6: "\<forall>i\<in>set (map NORADID (rows ?cat)). \<exists>k. Atoi i = Some k"
    unfolding ids by (simp add: a)
  have h7: "inj_on Atoi (set (map NORADID (rows ?cat)))"
    unfolding ids by (simp add: a)
  have h8: "\<forall>i\<in>set (map NORADID (rows ?cat)). contents world0 (filename ''d'' i) = None"
    by (simp add: world0_def)
  have h9: "create_faults world0 = {}" "write_faults world0 = {}" by (simp_all add: world0_def)
  have sp: "butlast (Split_newline (''1 00100 a'' @ nl @ ''2 00200 b'' @ nl))
      = [''1 00100 a'', ''2 00200 b'']"
    by (simp add: nl_def)
  have l: "lineID ''1 00100 a'' = Inr 100" "lineID ''2 00200 b'' = Inr 200"
    by (simp_all add: go_simps)
  have h10: "\<forall>j<2. \<exists>resp. remote env0 (loginurl env0) (batch_request env0 (batch ?cat 1 j)) = Some resp
        \<and> (\<forall>l\<in>set (butlast (Split_newline resp)). \<exists>k. lineID l = Inr k)"
    by (simp add: env0_def nl_def go_simps)
  have b0: "batch ?cat 1 0 = [''100'']" and b1: "batch ?cat 1 1 = [''200'']"
    by (simp_all add: batch_def rows2_def row_def zero_row_def)
  have bl: "batch_lines env0 ids = [''1 00100 a'', ''2 00200 b'']" for ids
    by (simp add: batch_lines_def env0_def nl_def)
  from whole_catalog_fetched [OF h1 h2 h3 h4 h5 h6 h7 h8 h9 h10]
  obtain w' where r: "scheduler env0 ?cat (of_nat 1) ''d'' 2 (0, world0) = Inr (of_nat (2 * 1), w')"
    "created w' = created world0 @ map (filename ''d'') (map NORADID (rows ?cat))"
    "\<forall>j<2. \<forall>i\<in>set (batch ?cat 1 j).
              contents w' (filename ''d'' i) =
                Some (concat (filter (\<lambda>l. lineID l = Inr (the (Atoi i)))
                  (batch_lines env0 (batch ?cat 1 j))))
              \<and> written_to w' (filename ''d'' i) =
                written_to world0 (filename ''d'' i) @ filter (\<lambda>l. lineID l = Inr (the (Atoi i)))
                  (batch_lines env0 (batch ?cat 1 j))"
    by (elim exE conjE) (rule that)
  have lt: "(0::nat) < 2" "(1::nat) < 2" by simp_all
  from r(3) lt(1) have c0: "\<forall>i\<in>set (batch ?cat 1 0).
              contents w' (filename ''d'' i) =
                Some (concat (filter (\<lambda>l. lineID l = Inr (the (Atoi i)))
                  (batch_lines env0 (batch ?cat 1 0))))
              \<and> written_to w' (filename ''d'' i) =
                written_to world0 (filename ''d'' i) @ filter (\<lambda>l. lineID l = Inr (the (Atoi i)))
                  (batch_lines env0 (batch ?cat 1 0))"
    by blast
  from r(3) lt(2) have c1: "\<forall>i\<in>set (batch ?cat 1 1).
              contents w' (filename ''d'' i) =
                Some (concat (filter (\<lambda>l. lineID l = Inr (the (Atoi i)))
                  (batch_lines env0 (batch ?cat 1 1))))
              \<and> written_to w' (filename ''d'' i) =
                written_to world0 (filename ''d'' i) @ filter (\<lambda>l. lineID l = Inr (the (Atoi i)))
                  (batch_lines env0 (batch ?cat 1 1))"
    by blast
  from c0 have "contents w' ''d/100.tle'' = Some ''1 00100 a''
      \<and> written_to w' ''d/100.tle'' = [''1 00100 a'']"
    unfolding b0 bl by (simp add: a l filename_def written_to_def world0_def)
  moreover from c1 have "contents w' ''d/200.tle'' = Some ''2 00200 b''"
    unfolding b1 bl by (simp add: a l filename_def)
  moreover from r(2) have "created w' = [''d/100.tle'', ''d/200.tle'']"
    unfolding ids by (simp add: filename_def world0_def)
  moreover from r(1) have "scheduler env0 ?cat 1 ''d'' 2 (0, world0) = Inr (2, w')"
    by simp
  ultimately show ?thesis by blast
qed

text \<open>
  Claim C8 as stated fails. With three rows, batch size 2 and capacity 3, the second of
  the two cycles panics on the window bounds and identifier 300 has no artifact. And
  with one row and an answer of two lines for its identifier, the artifact ends as the
  two lines run together: it holds no line feed, and splits into one line, not two.
\<close>

theorem partial_batch_and_unseparated_lines:
  "scheduler env0 \<lparr>rows = rows3, capacity = 3\<rparr> 2 ''d'' (Suc (Suc 0)) (0, world0)
     = Inl (PanicWindowBounds,
         world0\<lparr>contents := [''d/100.tle'' \<mapsto> ''1 00100 a'', ''d/200.tle'' \<mapsto> ''2 00200 b''],
                created := [''d/100.tle'', ''d/200.tle''],
                requests := [(''L'',
                  ''R/query/class/tle/NORAD_CAT_ID/100,200/orderby/EPOCH asc/format/tle/metadata/false'')],
                writes := [(''d/100.tle'', ''1 00100 a''), (''d/200.tle'', ''2 00200 b'')]\<rparr>)
   \<and> scheduler env2 \<lparr>rows = [row ''100''], capacity = 1\<rparr> 1 ''d'' (Suc 0) (0, world0)
     = Inr (1,
         world0\<lparr>contents := [''d/100.tle'' \<mapsto> ''1 00100 a2 00100 b''],
                created := [''d/100.tle''],
                requests := [(''L'',
                  ''R/query/class/tle/NORAD_CAT_ID/100/orderby/EPOCH asc/format/tle/metadata/false'')],
                writes := [(''d/100.tle'', ''1 00100 a''), (''d/100.tle'', ''2 00100 b'')]\<rparr>)
   \<and> Split_newline ''1 00100 a2 00100 b'' = [''1 00100 a2 00100 b'']
   \<and> filter (\<lambda>l. lineID l = Inr 100)
        (butlast (Split_newline (''1 00100 a'' @ nl @ ''2 00100 b'' @ nl)))
      = [''1 00100 a'', ''2 00100 b'']"
proof (intro conjI)
  show "scheduler env0 \<lparr>rows = rows3, capacity = 3\<rparr> 2 ''d'' (Suc (Suc 0)) (0, world0)
     = Inl (PanicWindowBounds,
         world0\<lparr>contents := [''d/100.tle'' \<mapsto> ''1 00100 a'', ''d/200.tle'' \<mapsto> ''2 00200 b''],
                created := [''d/100.tle'', ''d/200.tle''],
                requests := [(''L'',
                  ''R/query/class/tle/NORAD_CAT_ID/100,200/orderby/EPOCH asc/format/tle/metadata/false'')],
                writes := [(''d/100.tle'', ''1 00100 a''), (''d/200.tle'', ''2 00200 b'')]\<rparr>)"
    by (simp add: cycle_simps go_simps demux_simps rows3_def world0_def env0_def nl_def)
  show "scheduler env2 \<lparr>rows = [row ''100''], capacity = 1\<rparr> 1 ''d'' (Suc 0) (0, world0)
     = Inr (1,
         world0\<lparr>contents := [''d/100.tle'' \<mapsto> ''1 00100 a2 00100 b''],
                created := [''d/100.tle''],
                requests := [(''L'',
                  ''R/query/class/tle/NORAD_CAT_ID/100/orderby/EPOCH asc/format/tle/metadata/false'')],
                writes := [(''d/100.tle'', ''1 00100 a''), (''d/100.tle'', ''2 00100 b'')]\<rparr>)"
    by (simp add: cycle_simps go_simps demux_simps world0_def env2_def nl_def)
  show "Split_newline ''1 00100 a2 00100 b'' = [''1 00100 a2 00100 b'']"
    by simp
  show "filter (\<lambda>l. lineID l = Inr 100)
        (butlast (Split_newline (''1 00100 a'' @ nl @ ''2 00100 b'' @ nl)))
      = [''1 00100 a'', ''2 00100 b'']"
    by (simp add: go_simps nl_def)
qed

end
